theory Spec2Isabelle
  imports Complex_Main "HOL-Library.Option_ord"
begin

section \<open>Text, numbers and errors\<close>

text \<open>
  The tracker is a Python script (\<^verbatim>\<open>tracker.py\<close>). Its \<^verbatim>\<open>str\<close> values are modelled as
  \<^typ>\<open>string\<close>, one \<^typ>\<open>char\<close> per code point, which covers the code points 0 to 255
  (ASCII and Latin-1). Its \<^verbatim>\<open>float\<close> amounts are modelled as exact rationals: the model
  follows which formula and which branch the code takes, not the binary rounding of
  each operation. A \<^verbatim>\<open>datetime\<close> is the number of seconds since 0001-01-01 00:00:00 on
  the proleptic Gregorian calendar (\<^verbatim>\<open>strptime\<close> with this format yields whole seconds
  and no time zone), so comparison, \<^verbatim>\<open>min\<close>/\<^verbatim>\<open>max\<close> and subtraction are those of
  \<^typ>\<open>int\<close>. An exception is a value of \<open>py_error\<close>, returned on the left of a sum.
\<close>

datatype py_error = ValueError | TypeError | IndexError | OverflowError

text \<open>\<^verbatim>\<open>\d\<close> and \<^verbatim>\<open>\s\<close> of a \<^verbatim>\<open>str\<close> pattern, on the code points 0 to 255.\<close>

definition is_digit :: "char \<Rightarrow> bool" where
  "is_digit c \<longleftrightarrow> c \<in> set ''0123456789''"

definition is_space :: "char \<Rightarrow> bool" where
  "is_space c \<longleftrightarrow> c \<in> set [CHR 0x09, CHR 0x0A, CHR 0x0B, CHR 0x0C, CHR 0x0D,
      CHR 0x1C, CHR 0x1D, CHR 0x1E, CHR 0x1F, CHR 0x20, CHR 0x85, CHR 0xA0]"

text \<open>
  Lower case of one code point: A to Z, and the Latin-1 capitals 0xC0 to 0xDE but the
  multiplication sign 0xD7. With \<^verbatim>\<open>re.IGNORECASE\<close> a literal of the pattern matches a
  character of the text when both have the same lower case.
\<close>

definition lower_char :: "char \<Rightarrow> char" where
  "lower_char c = (let n = (of_char c :: nat) in
     if (65 \<le> n \<and> n \<le> 90) \<or> (192 \<le> n \<and> n \<le> 222 \<and> n \<noteq> 215) then char_of (n + 32) else c)"

text \<open>
  Upper case of one code point: a to z, and the Latin-1 small letters 0xE0 to 0xFE but
  the division sign 0xF7. (\<^verbatim>\<open>str.upper\<close> also rewrites 0xB5, 0xDF and 0xFF, to text
  outside Latin-1; the only call site passes a stake match, which has none of them:
  lemma \<open>limit_at_chars\<close>.)
\<close>

definition upper_char :: "char \<Rightarrow> char" where
  "upper_char c = (let n = (of_char c :: nat) in
     if (97 \<le> n \<and> n \<le> 122) \<or> (224 \<le> n \<and> n \<le> 254 \<and> n \<noteq> 247) then char_of (n - 32) else c)"

definition lower :: "string \<Rightarrow> string" where
  "lower s = map lower_char s"

definition upper :: "string \<Rightarrow> string" where
  "upper s = map upper_char s"

text \<open>The value of a run of decimal digits, as \<^verbatim>\<open>int\<close> reads it.\<close>

definition digit_value :: "char \<Rightarrow> nat" where
  "digit_value c = of_char c - 48"

definition int_of_digits :: "string \<Rightarrow> nat" where
  "int_of_digits ds = foldl (\<lambda>n c. 10 * n + digit_value c) 0 ds"

text \<open>
  \<^verbatim>\<open>float(s)\<close> on the strings the two call sites pass: an optional sign, digits, and
  optionally a point and digits. (\<^verbatim>\<open>float\<close> accepts more: exponents, blanks,
  \<^verbatim>\<open>inf\<close>; none of them can reach it from the patterns below.) Anything else is the
  \<^verbatim>\<open>ValueError\<close> of \<^verbatim>\<open>float\<close>.
\<close>

definition py_float :: "string \<Rightarrow> py_error + rat" where
  "py_float s =
     (let sg = (case s of c # _ \<Rightarrow> if c = CHR ''+'' \<or> c = CHR ''-'' then [c] else [] | [] \<Rightarrow> []);
          body = drop (length sg) s;
          ip = takeWhile is_digit body;
          rest = dropWhile is_digit body;
          sign = (if sg = ''-'' then - 1 else 1 :: rat)
      in if ip = [] then Inl ValueError
         else (case rest of
                 [] \<Rightarrow> Inr (sign * of_nat (int_of_digits ip))
               | c # fp \<Rightarrow>
                   if c = CHR ''.'' \<and> fp \<noteq> [] \<and> list_all is_digit fp
                   then Inr (sign * (of_nat (int_of_digits ip) + of_nat (int_of_digits fp) / 10 ^ length fp))
                   else Inl ValueError))"

text \<open>\<^verbatim>\<open>round(x)\<close> and \<^verbatim>\<open>round(x, 2)\<close>: to the nearest, a tie to the even neighbour.\<close>

definition py_round :: "rat \<Rightarrow> int" where
  "py_round x = (let f = \<lfloor>x\<rfloor>; d = x - of_int f in
     if d < 1 / 2 then f else if 1 / 2 < d then f + 1 else if even f then f else f + 1)"

definition round2 :: "rat \<Rightarrow> rat" where
  "round2 x = of_int (py_round (x * 100)) / 100"

section \<open>Regular expressions of the hand parser\<close>

text \<open>
  \<^verbatim>\<open>re.search\<close>: the pattern is tried at every start position from the left, the end of
  the text included, and the first position where it matches wins. The argument is the
  matcher of one pattern at the start of a text; it returns the groups the code reads.
\<close>

fun re_search :: "(string \<Rightarrow> 'a option) \<Rightarrow> string \<Rightarrow> 'a option" where
  "re_search m [] = m []"
| "re_search m (c # cs) = (case m (c # cs) of Some g \<Rightarrow> Some g | None \<Rightarrow> re_search m cs)"

text \<open>A literal of the pattern under \<^verbatim>\<open>re.IGNORECASE\<close>, at the start of the text.\<close>

definition ci_prefix :: "string \<Rightarrow> string \<Rightarrow> bool" where
  "ci_prefix lit s \<longleftrightarrow> length lit \<le> length s \<and> lower (take (length lit) s) = lower lit"

text \<open>\<^verbatim>\<open>\d+\<close>, greedy: every digit at the start of the text, and at least one.\<close>

definition digits1 :: "string \<Rightarrow> string option" where
  "digits1 s = (let ds = takeWhile is_digit s in if ds = [] then None else Some ds)"

text \<open>
  \<^verbatim>\<open>(\d{4}-\d{2}-\d{2} \d{2}:\d{2}:\d{2})\<close> (line 112): nineteen characters, each a
  digit or the separator of its position. The result is group 1.
\<close>

definition date_pattern :: "(char \<Rightarrow> bool) list" where
  "date_pattern =
     [is_digit, is_digit, is_digit, is_digit, (=) CHR ''-'', is_digit, is_digit, (=) CHR ''-'',
      is_digit, is_digit, (=) CHR '' '', is_digit, is_digit, (=) CHR '':'', is_digit, is_digit,
      (=) CHR '':'', is_digit, is_digit]"

definition date_at :: "string \<Rightarrow> string option" where
  "date_at s = (if list_all2 (\<lambda>p c. p c) date_pattern (take 19 s) then Some (take 19 s) else None)"

text \<open>
  \<^verbatim>\<open>(NL|PL)\s?(\d+)\<close> with \<^verbatim>\<open>re.IGNORECASE\<close> (line 122). \<^verbatim>\<open>\s?\<close> is greedy: one
  white-space character is taken first, and given back when no digit follows it. The
  result is (group 0, group 2).
\<close>

definition limit_at :: "string \<Rightarrow> (string \<times> string) option" where
  "limit_at s =
     (if ci_prefix ''NL'' s \<or> ci_prefix ''PL'' s then
        (case (case drop 2 s of c # r \<Rightarrow> if is_space c then digits1 r else None | [] \<Rightarrow> None) of
           Some ds \<Rightarrow> Some (take 3 s @ ds, ds)
         | None \<Rightarrow> (case digits1 (drop 2 s) of Some ds \<Rightarrow> Some (take 2 s @ ds, ds) | None \<Rightarrow> None))
      else None)"

text \<open>
  \<^verbatim>\<open>([+-]?\d+(\.\d+)?)\<close>, the last group of the hero pattern: an optional sign, every
  digit that follows, and a point with every digit after it when at least one digit
  follows the point. Nothing comes after it in the pattern, so nothing is given back.
\<close>

definition number_at :: "string \<Rightarrow> string option" where
  "number_at s =
     (let sg = (case s of c # _ \<Rightarrow> if c = CHR ''+'' \<or> c = CHR ''-'' then [c] else [] | [] \<Rightarrow> []);
          r = drop (length sg) s;
          ds = takeWhile is_digit r;
          fr = (case dropWhile is_digit r of
                  c # r' \<Rightarrow> if c = CHR ''.'' \<and> takeWhile is_digit r' \<noteq> [] then c # takeWhile is_digit r' else []
                | [] \<Rightarrow> [])
      in if ds = [] then None else Some (sg @ ds @ fr))"

text \<open>\<^verbatim>\<open>(won|lost)\s([+-]?\d+(\.\d+)?)\<close>: the result is (group 1, group 2).\<close>

definition result_at :: "string \<Rightarrow> (string \<times> string) option" where
  "result_at s =
     (case (if ci_prefix ''won'' s then Some 3 else if ci_prefix ''lost'' s then Some 4 else None) of
        None \<Rightarrow> None
      | Some n \<Rightarrow>
          (case drop n s of
             c # r \<Rightarrow> if is_space c then map_option (Pair (take n s)) (number_at r) else None
           | [] \<Rightarrow> None))"

text \<open>
  \<^verbatim>\<open>.*?\<close> followed by the rest of the pattern: non-greedy, so the rest is tried first
  and one more character is skipped only when it fails. The pattern is compiled without
  \<^verbatim>\<open>re.DOTALL\<close>, so the dot does not match the line feed.
\<close>

fun lazy_dots :: "(string \<Rightarrow> 'a option) \<Rightarrow> string \<Rightarrow> 'a option" where
  "lazy_dots k [] = k []"
| "lazy_dots k (c # cs) =
     (case k (c # cs) of
        Some g \<Rightarrow> Some g
      | None \<Rightarrow> if c = CHR 0x0A then None else lazy_dots k cs)"

text \<open>
  \<^verbatim>\<open>{re.escape(hero_name)}.*?(won|lost)\s([+-]?\d+(\.\d+)?)\<close> with \<^verbatim>\<open>re.IGNORECASE\<close>
  (line 141): the escaped name is a sequence of literals.
\<close>

definition hero_at :: "string \<Rightarrow> string \<Rightarrow> (string \<times> string) option" where
  "hero_at hero_name s =
     (if ci_prefix hero_name s then lazy_dots result_at (drop (length hero_name) s) else None)"

text \<open>
  \<^verbatim>\<open>Hand\s*#(\d+)\<close> with \<^verbatim>\<open>re.IGNORECASE\<close> (line 158). \<^verbatim>\<open>\s*\<close> takes every white-space
  character; giving one back would put \<^verbatim>\<open>#\<close> against white space. The result is group 1.
\<close>

definition hand_id_at :: "string \<Rightarrow> string option" where
  "hand_id_at s =
     (if ci_prefix ''Hand'' s then
        (case dropWhile is_space (drop 4 s) of
           c # r \<Rightarrow> if c = CHR ''#'' then digits1 r else None
         | [] \<Rightarrow> None)
      else None)"

section \<open>Dates\<close>

text \<open>
  \<^verbatim>\<open>datetime.strptime(s, "%Y-%m-%d %H:%M:%S")\<close> on a text of the shape of
  \<open>date_pattern\<close>. It raises \<^verbatim>\<open>ValueError\<close> when a field is out of range: month 00 or
  above 12, day 00 or past the end of the month, hour above 23, minute above 59, second
  above 59, year 0000.
\<close>

definition is_leap :: "int \<Rightarrow> bool" where
  "is_leap y \<longleftrightarrow> y mod 4 = 0 \<and> (y mod 100 \<noteq> 0 \<or> y mod 400 = 0)"

definition days_in_month :: "int \<Rightarrow> int \<Rightarrow> int" where
  "days_in_month y m =
     (if m = 2 then (if is_leap y then 29 else 28)
      else if m = 4 \<or> m = 6 \<or> m = 9 \<or> m = 11 then 30 else 31)"

definition days_before_year :: "int \<Rightarrow> int" where
  "days_before_year y = (y - 1) * 365 + (y - 1) div 4 - (y - 1) div 100 + (y - 1) div 400"

definition days_before_month :: "int \<Rightarrow> int \<Rightarrow> int" where
  "days_before_month y m = sum_list (map (days_in_month y) [1..m - 1])"

definition ymd2ord :: "int \<Rightarrow> int \<Rightarrow> int \<Rightarrow> int" where
  "ymd2ord y m d = days_before_year y + days_before_month y m + d"

definition strptime :: "string \<Rightarrow> py_error + int" where
  "strptime s =
     (let year = int (int_of_digits (take 4 s));
          month = int (int_of_digits (take 2 (drop 5 s)));
          day = int (int_of_digits (take 2 (drop 8 s)));
          hour = int (int_of_digits (take 2 (drop 11 s)));
          minute = int (int_of_digits (take 2 (drop 14 s)));
          second = int (int_of_digits (take 2 (drop 17 s)))
      in if 1 \<le> year \<and> 1 \<le> month \<and> month \<le> 12 \<and> 1 \<le> day \<and> day \<le> days_in_month year month
            \<and> hour \<le> 23 \<and> minute \<le> 59 \<and> second \<le> 59
         then Inr ((ymd2ord year month day - 1) * 86400 + hour * 3600 + minute * 60 + second)
         else Inl ValueError)"

section \<open>The hand parser\<close>

text \<open>
  The dictionary \<^verbatim>\<open>parse_hand\<close> returns (lines 161 to 169). \<^verbatim>\<open>hand_id\<close> is the text
  of the hand number, or \<^verbatim>\<open>id(raw_hand)\<close>, the identity of the text object.
\<close>

datatype hand_ident = Text string | ObjId nat

record hand =
  hand_id :: hand_ident
  datetime :: "int option"
  limit :: string
  bb_size :: "rat option"
  hero_result_money :: rat
  hero_result_bb :: "rat option"
  raw :: string

text \<open>
  \<^verbatim>\<open>parse_hand(raw_hand, hero_name)\<close> (lines 103 to 169). \<open>raw_id\<close> is what
  \<^verbatim>\<open>id(raw_hand)\<close> returns. Only \<^verbatim>\<open>float\<close> of the stake number stands in a
  \<^verbatim>\<open>try\<close>; the exceptions of \<^verbatim>\<open>strptime\<close> and of the other \<^verbatim>\<open>float\<close> leave the
  function.
\<close>

definition parse_hand :: "nat \<Rightarrow> string \<Rightarrow> string \<Rightarrow> py_error + hand" where
  "parse_hand raw_id raw_hand hero_name =
     (case (case re_search date_at raw_hand of
              Some g1 \<Rightarrow> map_sum id Some (strptime g1)
            | None \<Rightarrow> Inr None) of
        Inl e \<Rightarrow> Inl e
      | Inr hand_time \<Rightarrow>
          (let limit_match = re_search limit_at raw_hand;
               limit = (case limit_match of Some (g0, g2) \<Rightarrow> upper g0 | None \<Rightarrow> ''unknown'');
               bb_size = (case limit_match of
                            Some (g0, g2) \<Rightarrow> (case py_float g2 of Inr v \<Rightarrow> Some (v / 100) | Inl e \<Rightarrow> None)
                          | None \<Rightarrow> None);
               hero_match = re_search (hero_at hero_name) raw_hand
           in case (case hero_match of
                      Some (g1, g2) \<Rightarrow>
                        map_sum id (\<lambda>v. (if lower g1 = ''won'' then 1 else - 1) * v) (py_float g2)
                    | None \<Rightarrow> Inr 0) of
                Inl e \<Rightarrow> Inl e
              | Inr result_money \<Rightarrow>
                  (let result_bb = (case bb_size of
                                      Some b \<Rightarrow> if b \<noteq> 0 \<and> 0 < b then Some (result_money / b) else None
                                    | None \<Rightarrow> None);
                       hid = (case re_search hand_id_at raw_hand of
                                Some g1 \<Rightarrow> Text g1
                              | None \<Rightarrow> ObjId raw_id)
                   in Inr \<lparr>hand_id = hid, datetime = hand_time, limit = limit, bb_size = bb_size,
                           hero_result_money = result_money, hero_result_bb = result_bb,
                           raw = raw_hand\<rparr>)))"

section \<open>The session builder\<close>

text \<open>The dictionary of one session (lines 233 to 244).\<close>

record session =
  session_id :: nat
  start_time :: int
  end_time :: int
  duration_minutes :: int
  hands_count :: nat
  limit :: string
  total_result_money :: rat
  total_result_bb :: "rat option"
  bb_per_100 :: "rat option"
  hands :: "hand list"

text \<open>
  \<^verbatim>\<open>timedelta(minutes=m)\<close> (line 189), in seconds. A \<^verbatim>\<open>timedelta\<close> holds at most
  999999999 days in either direction and the constructor raises \<^verbatim>\<open>OverflowError\<close>
  beyond.
\<close>

definition timedelta_minutes :: "int \<Rightarrow> py_error + int" where
  "timedelta_minutes m = (if \<bar>m div 1440\<bar> \<le> 999999999 then Inr (60 * m) else Inl OverflowError)"

text \<open>
  The loop of lines 193 to 205 over the sorted hands; the state is
  (\<^verbatim>\<open>sessions\<close>, \<^verbatim>\<open>current\<close>, \<^verbatim>\<open>prev_time\<close>). Subtracting from a hand without a time
  is the \<^verbatim>\<open>TypeError\<close> of Python.
\<close>

fun session_loop ::
  "int \<Rightarrow> hand list \<Rightarrow> hand list list \<times> hand list \<times> int option
     \<Rightarrow> py_error + hand list list \<times> hand list \<times> int option" where
  "session_loop gap [] st = Inr st"
| "session_loop gap (hand # rest) (sessions, current, prev_time) =
     (case prev_time of
        None \<Rightarrow> session_loop gap rest (sessions, [hand], datetime hand)
      | Some p \<Rightarrow>
          (case datetime hand of
             None \<Rightarrow> Inl TypeError
           | Some t \<Rightarrow>
               if t - p > gap
               then session_loop gap rest (sessions @ [current], [hand], datetime hand)
               else session_loop gap rest (sessions, current @ [hand], datetime hand)))"

text \<open>
  The body of the loop of lines 212 to 244 for the session number \<open>idx\<close>.
  \<^verbatim>\<open>sess[0]\<close> of an empty list is an \<^verbatim>\<open>IndexError\<close>; the set of the stake labels is
  read only when it has one element, so its order does not matter.
\<close>

definition make_session :: "nat \<Rightarrow> hand list \<Rightarrow> py_error + session" where
  "make_session idx sess =
     (case sess of
        [] \<Rightarrow> Inl IndexError
      | first # _ \<Rightarrow>
          (case (datetime first, datetime (last sess)) of
             (Some t_first, Some t_last) \<Rightarrow>
               (let duration = rat_of_int (t_last - t_first) / 60;
                    hands_count = length sess;
                    limits = remdups (map hand.limit sess);
                    limit = (case limits of [l] \<Rightarrow> l | _ \<Rightarrow> ''mixed'');
                    money_total = sum_list (map hero_result_money sess);
                    bb_results = List.map_filter hero_result_bb sess;
                    bb_total = (if bb_results \<noteq> [] then Some (sum_list bb_results) else None);
                    bb_per_100 = map_option (\<lambda>t. t / of_nat hands_count * 100) bb_total
                in Inr \<lparr>session_id = idx, start_time = t_first, end_time = t_last,
                        duration_minutes = py_round duration, hands_count = hands_count,
                        limit = limit, total_result_money = round2 money_total,
                        total_result_bb = map_option round2 bb_total,
                        bb_per_100 = map_option round2 bb_per_100, hands = sess\<rparr>)
           | _ \<Rightarrow> Inl TypeError))"

text \<open>\<^verbatim>\<open>enumerate(sessions, start=1)\<close>: the loop of line 212, from the number \<open>idx\<close>.\<close>

fun make_sessions :: "nat \<Rightarrow> hand list list \<Rightarrow> py_error + session list" where
  "make_sessions idx [] = Inr []"
| "make_sessions idx (sess # rest) =
     (case make_session idx sess of
        Inl e \<Rightarrow> Inl e
      | Inr s \<Rightarrow> (case make_sessions (Suc idx) rest of Inl e \<Rightarrow> Inl e | Inr ss \<Rightarrow> Inr (s # ss)))"

text \<open>Lines 186 to 246: what \<^verbatim>\<open>build_sessions\<close> does once the list is filtered and sorted.\<close>

definition sessions_of_sorted :: "hand list \<Rightarrow> int \<Rightarrow> py_error + session list" where
  "sessions_of_sorted sorted_hands session_gap_minutes =
     (case timedelta_minutes session_gap_minutes of
        Inl e \<Rightarrow> Inl e
      | Inr gap \<Rightarrow>
          (case session_loop gap sorted_hands ([], [], None) of
             Inl e \<Rightarrow> Inl e
           | Inr (sessions, current, prev_time) \<Rightarrow>
               make_sessions 1 (if current \<noteq> [] then sessions @ [current] else sessions)))"

text \<open>
  \<^verbatim>\<open>build_sessions(hands, session_gap_minutes)\<close> (lines 176 to 246), as a function of
  the content \<open>hand_list\<close> of the list it is given. \<^verbatim>\<open>list.sort\<close> is stable, as \<open>sort_key\<close> is; the
  key is never \<^verbatim>\<open>None\<close> after the filter.
\<close>

definition build_sessions :: "hand list \<Rightarrow> int \<Rightarrow> py_error + session list" where
  "build_sessions hand_list session_gap_minutes =
     sessions_of_sorted (sort_key datetime (filter (\<lambda>h. datetime h \<noteq> None) hand_list))
       session_gap_minutes"

text \<open>
  The same function with the list objects made explicit. The store holds the list
  objects, a reference is an index into it, and \<open>hands_ref\<close> is the reference the
  caller passes. Line 181 builds a new list object and binds the local name \<^verbatim>\<open>hands\<close>
  to it (\<open>hands_ref1\<close>);
  line 184 sorts the object of that name in place. The function returns the store it
  leaves and its result.
\<close>

definition build_sessions_store ::
  "hand list list \<Rightarrow> nat \<Rightarrow> int \<Rightarrow> hand list list \<times> (py_error + session list)" where
  "build_sessions_store store hands_ref session_gap_minutes =
     (let store1 = store @ [filter (\<lambda>h. datetime h \<noteq> None) (store ! hands_ref)];
          hands_ref1 = length store;
          store2 = store1[hands_ref1 := sort_key datetime (store1 ! hands_ref1)]
      in (store2, sessions_of_sorted (store2 ! hands_ref1) session_gap_minutes))"

section \<open>The stake aggregator\<close>

text \<open>
  The dictionary of one stake label while the sessions are added (lines 263 to 269), and
  with its \<^verbatim>\<open>bb_per_100\<close> key at the end (line 285).
\<close>

record stake_totals =
  limit :: string
  sessions_count :: nat
  hands_count :: nat
  total_result_money :: rat
  total_result_bb :: rat

record stake_stat = stake_totals +
  bb_per_100 :: "rat option"

text \<open>
  \<^verbatim>\<open>stats\<close> is a dictionary from the label to the totals; a Python dictionary keeps its
  keys in the order of their first insertion, so it is a list of pairs with distinct
  keys, a new key going to the end.
\<close>

fun update_entry :: "string \<Rightarrow> (stake_totals \<Rightarrow> stake_totals) \<Rightarrow> (string \<times> stake_totals) list
    \<Rightarrow> (string \<times> stake_totals) list" where
  "update_entry k f [] = []"
| "update_entry k f ((k', d) # rest) =
     (if k' = k then (k', f d) # rest else (k', d) # update_entry k f rest)"

text \<open>The body of the loop of lines 257 to 275.\<close>

definition add_session :: "(string \<times> stake_totals) list \<Rightarrow> session \<Rightarrow> (string \<times> stake_totals) list" where
  "add_session stats sess =
     (let limit = session.limit sess in
      if limit = ''mixed'' then stats
      else
        (let stats1 =
               (if limit \<notin> set (map fst stats)
                then stats @ [(limit, \<lparr>limit = limit, sessions_count = 0, hands_count = 0,
                                        total_result_money = 0, total_result_bb = 0\<rparr>)]
                else stats)
         in update_entry limit
              (\<lambda>d. d\<lparr>sessions_count := sessions_count d + 1,
                      hands_count := stake_totals.hands_count d + session.hands_count sess,
                      total_result_money :=
                        stake_totals.total_result_money d + session.total_result_money sess,
                      total_result_bb :=
                        (case session.total_result_bb sess of
                           Some b \<Rightarrow> stake_totals.total_result_bb d + b
                         | None \<Rightarrow> stake_totals.total_result_bb d)\<rparr>)
              stats1))"

text \<open>The body of the loop of lines 279 to 286; a number is true when it is not zero.\<close>

definition finish_stat :: "stake_totals \<Rightarrow> stake_stat" where
  "finish_stat d =
     (let bb100 =
            (if stake_totals.hands_count d > 0
             then (if stake_totals.total_result_bb d \<noteq> 0
                   then Some (stake_totals.total_result_bb d / of_nat (stake_totals.hands_count d) * 100)
                   else None)
             else None)
      in stake_totals.extend d (stake_stat.fields (map_option round2 bb100)))"

definition build_limits_stats :: "session list \<Rightarrow> stake_stat list" where
  "build_limits_stats sessions = map (\<lambda>entry. finish_stat (snd entry)) (foldl add_session [] sessions)"

section \<open>The summary\<close>

record summary =
  total_hands :: nat
  total_sessions :: nat
  total_result_money :: rat
  total_result_bb :: "rat option"
  overall_bb_per_100 :: "rat option"
  first_hand_time :: "int option"
  last_hand_time :: "int option"

text \<open>\<^verbatim>\<open>build_summary(hands, sessions)\<close> (lines 295 to 330).\<close>

definition build_summary :: "hand list \<Rightarrow> session list \<Rightarrow> summary" where
  "build_summary hand_list sessions =
     (if hand_list = [] then
        \<lparr>total_hands = 0, total_sessions = 0, total_result_money = 0, total_result_bb = None,
         overall_bb_per_100 = None, first_hand_time = None, last_hand_time = None\<rparr>
      else
        (let total_hands = length hand_list;
             total_sessions = length sessions;
             money_total = sum_list (map hero_result_money hand_list);
             bb_list = List.map_filter hero_result_bb hand_list;
             bb_total = (if bb_list \<noteq> [] then Some (sum_list bb_list) else None);
             bb_per_100 = map_option (\<lambda>t. t / of_nat total_hands * 100) bb_total;
             times = List.map_filter datetime hand_list
         in \<lparr>total_hands = total_hands, total_sessions = total_sessions,
              total_result_money = round2 money_total,
              total_result_bb = map_option round2 bb_total,
              overall_bb_per_100 = map_option round2 bb_per_100,
              first_hand_time = (if times \<noteq> [] then Some (Min (set times)) else None),
              last_hand_time = (if times \<noteq> [] then Some (Max (set times)) else None)\<rparr>))"

section \<open>What the claims speak of\<close>

text \<open>
  Two hands with a time are within the gap of \<open>G\<close> minutes when the second is at most
  \<open>G\<close> minutes after the first, and exceed it otherwise. A list of hand lists is
  segmented by \<open>G\<close> when no list is empty, neighbours inside a list are within the gap,
  and the last hand of a list and the first hand of the next exceed it.
\<close>

definition within_gap :: "int \<Rightarrow> hand \<Rightarrow> hand \<Rightarrow> bool" where
  "within_gap G a b \<longleftrightarrow>
     (case (datetime a, datetime b) of (Some s, Some t) \<Rightarrow> t - s \<le> 60 * G | _ \<Rightarrow> False)"

definition gap_exceeded :: "int \<Rightarrow> hand \<Rightarrow> hand \<Rightarrow> bool" where
  "gap_exceeded G a b \<longleftrightarrow>
     (case (datetime a, datetime b) of (Some s, Some t) \<Rightarrow> t - s > 60 * G | _ \<Rightarrow> False)"

definition segmented :: "int \<Rightarrow> hand list list \<Rightarrow> bool" where
  "segmented G gs \<longleftrightarrow>
     [] \<notin> set gs \<and> (\<forall>g\<in>set gs. successively (within_gap G) g)
     \<and> successively (\<lambda>g g'. gap_exceeded G (last g) (hd g')) gs"

text \<open>
  The totals of the sessions of one stake label, as the claims state them: the number of
  these sessions and the sums of their hands, money and big blinds, a session without a
  big-blind total counting as zero.
\<close>

definition stake_sum :: "string \<Rightarrow> session list \<Rightarrow> stake_totals" where
  "stake_sum l ss =
     (let xs = filter (\<lambda>s. session.limit s = l) ss in
      \<lparr>limit = l, sessions_count = length xs,
       hands_count = sum_list (map session.hands_count xs),
       total_result_money = sum_list (map session.total_result_money xs),
       total_result_bb =
         sum_list (map (\<lambda>s. case session.total_result_bb s of Some b \<Rightarrow> b | None \<Rightarrow> 0) xs)\<rparr>)"

text \<open>
  The invariant of the loop of lines 257 to 275, after the sessions \<open>ss\<close>: the keys
  are distinct, they are the labels of \<open>ss\<close> other than \<^verbatim>\<open>"mixed"\<close>, and each key holds
  the totals of its sessions.
\<close>

definition stats_inv :: "session list \<Rightarrow> (string \<times> stake_totals) list \<Rightarrow> bool" where
  "stats_inv ss acc \<longleftrightarrow>
     distinct (map fst acc)
     \<and> set (map fst acc) = {l \<in> session.limit ` set ss. l \<noteq> ''mixed''}
     \<and> (\<forall>k d. (k, d) \<in> set acc \<longrightarrow> d = stake_sum k ss)"

text \<open>A hand as the parser could return it, for the worked examples.\<close>

definition example_hand :: "nat \<Rightarrow> int option \<Rightarrow> string \<Rightarrow> rat option \<Rightarrow> rat \<Rightarrow> hand" where
  "example_hand n t l bb m =
     \<lparr>hand_id = ObjId n, datetime = t, limit = l, bb_size = bb, hero_result_money = m,
      hero_result_bb = (case bb of Some b \<Rightarrow> if b \<noteq> 0 \<and> 0 < b then Some (m / b) else None | None \<Rightarrow> None),
      raw = []\<rparr>"

definition example_hands :: "hand list" where
  "example_hands =
     [example_hand 3 (Some 3601) ''NL25'' (Some (1 / 4)) 1, example_hand 0 None ''PL50'' None 2,
      example_hand 1 (Some 0) ''NL25'' (Some (1 / 4)) (5 / 2), example_hand 2 (Some 1800) ''NL25'' (Some (1 / 4)) (- 1)]"

definition example_ties :: "hand list" where
  "example_ties =
     [example_hand 1 (Some 5) ''NL25'' None 0, example_hand 2 (Some 5) ''NL25'' None 0,
      example_hand 3 (Some 6) ''PL10'' None 0]"

text \<open>A session as the session builder could return it, and session lists for the worked examples.\<close>

definition example_session :: "nat \<Rightarrow> string \<Rightarrow> nat \<Rightarrow> rat \<Rightarrow> rat option \<Rightarrow> session" where
  "example_session n l c m b =
     \<lparr>session_id = n, start_time = 0, end_time = 0, duration_minutes = 0, hands_count = c,
      limit = l, total_result_money = m, total_result_bb = b,
      bb_per_100 = map_option (\<lambda>t. round2 (t / of_nat c * 100)) b, hands = []\<rparr>"

definition example_sessions :: "session list" where
  "example_sessions =
     [example_session 1 ''NL25'' 2 (3 / 2) (Some 6), example_session 2 ''mixed'' 3 4 (Some 10),
      example_session 3 ''NL25'' 1 (- 1) (Some (- 6)), example_session 4 ''PL50'' 1 2 None,
      example_session 5 ''NL10'' 2 (1 / 2) (Some 5)]"

definition example_mixed :: "hand list" where
  "example_mixed =
     [example_hand 1 (Some 0) ''NL25'' (Some (1 / 4)) 1, example_hand 2 (Some 60) ''PL50'' (Some (1 / 2)) 1]"

definition example_untimed :: "hand list" where
  "example_untimed = [example_hand 1 None ''NL25'' (Some (1 / 4)) 1, example_hand 2 None ''unknown'' None 0]"

text \<open>
  A stake token, as the claims on the stake label speak of it: \<^verbatim>\<open>NL\<close> or \<^verbatim>\<open>PL\<close> in
  either case, at most one white-space character, and one or more digits. It occurs at
  position \<open>i\<close> of a block when the block continues with it there and no digit follows
  it: the digits of an occurrence are all the digits that stand there.
\<close>

definition stake_token :: "string \<Rightarrow> string \<Rightarrow> bool" where
  "stake_token m ds \<longleftrightarrow>
     (\<exists>t w. m = t @ w @ ds \<and> (lower t = ''nl'' \<or> lower t = ''pl'')
            \<and> (w = [] \<or> (\<exists>c. w = [c] \<and> is_space c))
            \<and> ds \<noteq> [] \<and> list_all is_digit ds)"


text \<open>
  The text of a decimal number: an optional sign, digits, and optionally a point and
  digits. In a block it ends where no more of the block belongs to it: no digit
  follows, and, unless the number has its point already, no point with a digit after it.
\<close>

definition number_text :: "string \<Rightarrow> bool" where
  "number_text n \<longleftrightarrow>
     (\<exists>sg ds fr. n = sg @ ds @ fr \<and> (sg = [] \<or> sg = ''+'' \<or> sg = ''-'')
        \<and> ds \<noteq> [] \<and> list_all is_digit ds
        \<and> (fr = [] \<or> (\<exists>fs. fr = CHR ''.'' # fs \<and> fs \<noteq> [] \<and> list_all is_digit fs)))"

definition number_ends :: "string \<Rightarrow> string \<Rightarrow> bool" where
  "number_ends n post \<longleftrightarrow>
     takeWhile is_digit post = []
     \<and> (CHR ''.'' \<in> set n \<or> (\<forall>r. post = CHR ''.'' # r \<longrightarrow> takeWhile is_digit r = []))"

text \<open>
  A result clause of the hero at position \<open>i\<close> of a block: the name in any case, then
  \<open>k\<close> characters none of which is a line feed, then \<^verbatim>\<open>won\<close> or \<^verbatim>\<open>lost\<close> in any case,
  one white-space character and a number. \<open>hero_clause_spec\<close> is the clause in the
  words of the specification: any \<open>k\<close> characters in between, line feeds too.
\<close>

definition hero_clause :: "string \<Rightarrow> string \<Rightarrow> nat \<Rightarrow> nat \<Rightarrow> string \<Rightarrow> string \<Rightarrow> bool" where
  "hero_clause raw_hand hero_name i k w n \<longleftrightarrow>
     i \<le> length raw_hand
     \<and> (\<exists>nm mid sp post.
           drop i raw_hand = nm @ mid @ w @ sp # n @ post
           \<and> lower nm = lower hero_name \<and> length mid = k \<and> CHR 0x0A \<notin> set mid
           \<and> (lower w = ''won'' \<or> lower w = ''lost'') \<and> is_space sp
           \<and> number_text n \<and> number_ends n post)"


text \<open>Hand blocks for the worked examples.\<close>

definition example_block :: string where
  "example_block = ''Hand #77 nl 25 2024-01-02 03:04:05'' @ [CHR 0x0A] @ ''hero: shows''
                     @ [CHR 0x0A] @ ''Hero lost 1.25''"

definition example_plain :: string where
  "example_plain = ''no stake and no result''"

definition example_lines :: string where
  "example_lines = ''Hero'' @ [CHR 0x0A] @ ''won 5''"

definition example_bad_date :: string where
  "example_bad_date = ''2024-13-01 10:00:00 Hero won 5''"

section \<open>Regular expression search\<close>


section \<open>The session builder: segmentation\<close>

lemma hd_concat_nonempty: "gs \<noteq> [] \<Longrightarrow> hd gs \<noteq> [] \<Longrightarrow> hd (concat gs) = hd (hd gs)"
  by (cases gs) auto

lemma segmented_single: "g \<noteq> [] \<Longrightarrow> successively (within_gap G) g \<Longrightarrow> segmented G [g]"
  by (simp add: segmented_def)

lemma segmented_Cons:
  assumes "segmented G gs" "gs \<noteq> []" "g \<noteq> []" "successively (within_gap G) g"
    and "gap_exceeded G (last g) (hd (hd gs))"
  shows "segmented G (g # gs)"
  using assms by (auto simp: segmented_def successively_Cons)

lemma session_loop_running:
  assumes "\<forall>h\<in>set hs. datetime h \<noteq> None" and "cur \<noteq> []" and "datetime (last cur) = Some p"
    and "successively (within_gap G) cur"
  shows "\<exists>ss' cur' p'. session_loop (60 * G) hs (ss, cur, Some p) = Inr (ss @ ss', cur', Some p')
           \<and> concat (ss' @ [cur']) = cur @ hs \<and> segmented G (ss' @ [cur'])"
  using assms
proof (induction hs arbitrary: ss cur p)
  case Nil
  have "session_loop (60 * G) [] (ss, cur, Some p) = Inr (ss @ [], cur, Some p)" by simp
  moreover have "concat ([] @ [cur]) = cur @ []" by simp
  moreover have "segmented G ([] @ [cur])" using Nil by (simp add: segmented_single)
  ultimately show ?case by blast
next
  case (Cons h rest)
  from Cons.prems obtain t where t: "datetime h = Some t" by auto
  have rest: "\<forall>h\<in>set rest. datetime h \<noteq> None" using Cons.prems by simp
  show ?case
  proof (cases "t - p > 60 * G")
    case True
    have one: "successively (within_gap G) [h]" by simp
    from Cons.IH [OF rest _ _ one, of t "ss @ [cur]"] t
    obtain ss'' cur' p' where
      run: "session_loop (60 * G) rest (ss @ [cur], [h], Some t) = Inr ((ss @ [cur]) @ ss'', cur', Some p')"
      and cc: "concat (ss'' @ [cur']) = [h] @ rest" and sg: "segmented G (ss'' @ [cur'])"
      by auto
    have ne: "hd (ss'' @ [cur']) \<noteq> []" using sg by (cases ss'') (auto simp: segmented_def)
    have "hd (concat (ss'' @ [cur'])) = hd (hd (ss'' @ [cur']))"
      by (rule hd_concat_nonempty) (use ne in auto)
    then have hdh: "hd (hd (ss'' @ [cur'])) = h" unfolding cc by simp
    have ex: "gap_exceeded G (last cur) h"
      using True t Cons.prems by (simp add: gap_exceeded_def)
    have "segmented G (cur # (ss'' @ [cur']))"
      by (rule segmented_Cons [OF sg]) (use Cons.prems hdh ex in auto)
    then have sg': "segmented G ((cur # ss'') @ [cur'])" by simp
    have "session_loop (60 * G) (h # rest) (ss, cur, Some p) = Inr (ss @ (cur # ss''), cur', Some p')"
      using run True t by simp
    moreover have "concat ((cur # ss'') @ [cur']) = cur @ h # rest" using cc by simp
    ultimately show ?thesis using sg' by blast
  next
    case False
    have wi: "within_gap G (last cur) h"
      using False t Cons.prems by (simp add: within_gap_def)
    have su: "successively (within_gap G) (cur @ [h])"
      using Cons.prems wi by (simp add: successively_append_iff)
    from Cons.IH [OF rest _ _ su, of t ss] t
    obtain ss' cur' p' where
      run: "session_loop (60 * G) rest (ss, cur @ [h], Some t) = Inr (ss @ ss', cur', Some p')"
      and cc: "concat (ss' @ [cur']) = (cur @ [h]) @ rest" and sg: "segmented G (ss' @ [cur'])"
      by auto
    have "session_loop (60 * G) (h # rest) (ss, cur, Some p) = Inr (ss @ ss', cur', Some p')"
      using run False t by simp
    moreover have "concat (ss' @ [cur']) = cur @ h # rest" using cc by simp
    ultimately show ?thesis using sg by blast
  qed
qed

lemma session_loop_groups:
  assumes "\<forall>h\<in>set hs. datetime h \<noteq> None"
  shows "\<exists>sessions current prev.
           session_loop (60 * G) hs ([], [], None) = Inr (sessions, current, prev)
           \<and> concat (if current \<noteq> [] then sessions @ [current] else sessions) = hs
           \<and> segmented G (if current \<noteq> [] then sessions @ [current] else sessions)"
proof (cases hs)
  case Nil
  then show ?thesis by (simp add: segmented_def)
next
  case (Cons h rest)
  from assms Cons obtain t where t: "datetime h = Some t" by auto
  have rest: "\<forall>h\<in>set rest. datetime h \<noteq> None" using assms Cons by simp
  from session_loop_running [OF rest, of "[h]" t G "[]"] t
  obtain ss' cur' p' where
    run: "session_loop (60 * G) rest ([], [h], Some t) = Inr (ss', cur', Some p')"
    and cc: "concat (ss' @ [cur']) = [h] @ rest" and sg: "segmented G (ss' @ [cur'])"
    by auto
  have "cur' \<noteq> []" using sg by (auto simp: segmented_def)
  moreover have "session_loop (60 * G) hs ([], [], None) = Inr (ss', cur', Some p')"
    using run t Cons by simp
  ultimately show ?thesis using cc sg Cons by auto
qed


lemma make_session_Inr:
  assumes "make_session idx sess = Inr s"
  shows "hands s = sess \<and> sess \<noteq> [] \<and> session_id s = idx
         \<and> datetime (hd sess) = Some (start_time s) \<and> datetime (last sess) = Some (end_time s)
         \<and> session.hands_count s = length sess
         \<and> session.limit s = (case remdups (map hand.limit sess) of [l] \<Rightarrow> l | _ \<Rightarrow> ''mixed'')"
  using assms
  by (auto simp: make_session_def Let_def split: list.splits option.splits)

lemma make_session_total:
  assumes "sess \<noteq> []" and "\<forall>h\<in>set sess. datetime h \<noteq> None"
  shows "\<exists>s. make_session idx sess = Inr s"
proof -
  from assms obtain a where a: "datetime (hd sess) = Some a" by (cases sess) auto
  from assms obtain b where b: "datetime (last sess) = Some b"
    using last_in_set by blast
  show ?thesis using assms(1) a b
    by (cases sess) (simp_all add: make_session_def Let_def)
qed

lemma make_sessions_Inr:
  assumes "make_sessions idx gs = Inr ss"
  shows "map hands ss = gs \<and> map session_id ss = [idx..<idx + length gs]
         \<and> (\<forall>s\<in>set ss. make_session (session_id s) (hands s) = Inr s)"
  using assms
proof (induction gs arbitrary: idx ss)
  case Nil
  then show ?case by simp
next
  case (Cons g gs)
  from Cons.prems obtain s ss' where s: "make_session idx g = Inr s"
    and ss': "make_sessions (Suc idx) gs = Inr ss'" and eq: "ss = s # ss'"
    by (auto split: sum.splits)
  from Cons.IH [OF ss'] have ih: "map hands ss' = gs"
    "map session_id ss' = [Suc idx..<Suc idx + length gs]"
    "\<forall>s\<in>set ss'. make_session (session_id s) (hands s) = Inr s" by auto
  from make_session_Inr [OF s] have hs: "hands s = g" "session_id s = idx" by auto
  have "idx < idx + length (g # gs)" by simp
  from upt_conv_Cons [OF this]
  have "[idx..<idx + length (g # gs)] = idx # [Suc idx..<Suc idx + length gs]" by simp
  then show ?case using ih hs s eq by simp
qed

lemma make_sessions_total:
  assumes "[] \<notin> set gs" and "\<forall>g\<in>set gs. \<forall>h\<in>set g. datetime h \<noteq> None"
  shows "\<exists>ss. make_sessions idx gs = Inr ss"
  using assms
proof (induction gs arbitrary: idx)
  case Nil
  then show ?case by simp
next
  case (Cons g gs)
  from Cons.prems have "g \<noteq> []" "\<forall>h\<in>set g. datetime h \<noteq> None" by auto
  from make_session_total [OF this] obtain s where s: "make_session idx g = Inr s" by blast
  from Cons.IH [of "Suc idx"] Cons.prems obtain ss where "make_sessions (Suc idx) gs = Inr ss"
    by auto
  with s show ?case by simp
qed


lemma timedelta_minutes_Inr: "timedelta_minutes G = Inr gap \<longleftrightarrow> \<bar>G div 1440\<bar> \<le> 999999999 \<and> gap = 60 * G"
  by (auto simp: timedelta_minutes_def)

lemma sessions_of_sorted_Inr:
  assumes "sessions_of_sorted hs G = Inr ss" and "\<forall>h\<in>set hs. datetime h \<noteq> None"
  shows "concat (map hands ss) = hs \<and> segmented G (map hands ss)
         \<and> map session_id ss = [1..<Suc (length ss)]
         \<and> (\<forall>s\<in>set ss. make_session (session_id s) (hands s) = Inr s)"
proof -
  from assms(1) have gap: "timedelta_minutes G = Inr (60 * G)"
    by (auto simp: sessions_of_sorted_def timedelta_minutes_def split: if_splits)
  from session_loop_groups [OF assms(2), of G]
  obtain sessions current prev where
    run: "session_loop (60 * G) hs ([], [], None) = Inr (sessions, current, prev)"
    and cc: "concat (if current \<noteq> [] then sessions @ [current] else sessions) = hs"
    and sg: "segmented G (if current \<noteq> [] then sessions @ [current] else sessions)"
    by blast
  define gs where "gs = (if current \<noteq> [] then sessions @ [current] else sessions)"
  have mk: "make_sessions 1 gs = Inr ss"
    using assms(1) gap run by (simp add: sessions_of_sorted_def gs_def)
  from make_sessions_Inr [OF mk] have m: "map hands ss = gs"
    "map session_id ss = [1..<1 + length gs]"
    "\<forall>s\<in>set ss. make_session (session_id s) (hands s) = Inr s" by auto
  have "length ss = length gs" using m(1) by (metis length_map)
  then show ?thesis using m cc sg by (simp add: gs_def)
qed

lemma sessions_of_sorted_total:
  assumes "\<bar>G div 1440\<bar> \<le> 999999999" and "\<forall>h\<in>set hs. datetime h \<noteq> None"
  shows "\<exists>ss. sessions_of_sorted hs G = Inr ss"
proof -
  from session_loop_groups [OF assms(2), of G]
  obtain sessions current prev where
    run: "session_loop (60 * G) hs ([], [], None) = Inr (sessions, current, prev)"
    and cc: "concat (if current \<noteq> [] then sessions @ [current] else sessions) = hs"
    and sg: "segmented G (if current \<noteq> [] then sessions @ [current] else sessions)"
    by blast
  define gs where "gs = (if current \<noteq> [] then sessions @ [current] else sessions)"
  have "[] \<notin> set gs" using sg by (simp add: gs_def segmented_def)
  moreover have "\<forall>g\<in>set gs. \<forall>h\<in>set g. datetime h \<noteq> None"
  proof (intro ballI)
    fix g h assume "g \<in> set gs" "h \<in> set g"
    then have "h \<in> set (concat gs)" by auto
    then show "datetime h \<noteq> None" using cc assms(2) by (simp add: gs_def)
  qed
  ultimately obtain ss where "make_sessions 1 gs = Inr ss"
    using make_sessions_total by blast
  then show ?thesis using assms(1) run
    by (simp add: sessions_of_sorted_def timedelta_minutes_def gs_def)
qed

lemma timed_sorted_times: "\<forall>h\<in>set (sort_key datetime (filter (\<lambda>h. datetime h \<noteq> None) hs)). datetime h \<noteq> None"
  by simp

lemma build_sessions_Inr:
  assumes "build_sessions hs G = Inr ss"
  shows "concat (map hands ss) = sort_key datetime (filter (\<lambda>h. datetime h \<noteq> None) hs)
         \<and> segmented G (map hands ss)
         \<and> map session_id ss = [1..<Suc (length ss)]
         \<and> (\<forall>s\<in>set ss. make_session (session_id s) (hands s) = Inr s)"
  using sessions_of_sorted_Inr [OF assms [unfolded build_sessions_def] timed_sorted_times] .

lemma build_sessions_total:
  assumes "\<bar>G div 1440\<bar> \<le> 999999999"
  shows "\<exists>ss. build_sessions hs G = Inr ss"
  unfolding build_sessions_def
  using sessions_of_sorted_total [OF assms timed_sorted_times] .

lemma build_sessions_Inl:
  "build_sessions hs G = Inl e \<Longrightarrow> e = OverflowError \<and> \<not> \<bar>G div 1440\<bar> \<le> 999999999"
  using build_sessions_total [of G hs]
  by (cases "\<bar>G div 1440\<bar> \<le> 999999999")
     (auto simp: build_sessions_def sessions_of_sorted_def timedelta_minutes_def)


lemma sorted_concat_elem: "sorted (map f (concat gs)) \<Longrightarrow> g \<in> set gs \<Longrightarrow> sorted (map f g)"
  by (induction gs) (auto simp: sorted_append)

lemma sorted_concat_across:
  assumes "sorted (map f (concat gs))" and "i < j" and "j < length gs"
    and "x \<in> set (gs ! i)" and "y \<in> set (gs ! j)"
  shows "f x \<le> f y"
proof -
  have split: "concat gs = concat (take j gs) @ concat (drop j gs)"
    by (metis append_take_drop_id concat_append)
  have "gs ! i \<in> set (take j gs)"
    using assms(2,3) by (metis in_set_conv_nth length_take min.absorb2 nth_take less_imp_le)
  then have x: "x \<in> set (concat (take j gs))" using assms(4) by auto
  have "gs ! j \<in> set (drop j gs)"
    using assms(3) by (metis Cons_nth_drop_Suc list.set_intros(1))
  then have y: "y \<in> set (concat (drop j gs))" using assms(5) by auto
  from assms(1) have "sorted (map f (concat (take j gs)) @ map f (concat (drop j gs)))"
    by (simp add: split [symmetric] flip: map_append)
  then show ?thesis using x y by (auto simp: sorted_append)
qed

lemma segmented_adjacent:
  "segmented G gs \<Longrightarrow> Suc i < length gs \<Longrightarrow> gap_exceeded G (last (gs ! i)) (hd (gs ! Suc i))"
  by (simp add: segmented_def successively_conv_nth)

text \<open>
  Claim C3, as stated, fails for a gap threshold that a \<^verbatim>\<open>timedelta\<close> cannot hold: at
  1440000000000 minutes (a thousand million days) line 189 raises \<^verbatim>\<open>OverflowError\<close> and no
  session is emitted.
\<close>

theorem build_sessions_gap_rule_counterexample:
  "build_sessions example_hands 1440000000000 = Inl OverflowError"
  by code_simp

text \<open>
  Claim C3, amended. For every hand list and every gap threshold of \<open>G\<close> minutes that a
  \<^verbatim>\<open>timedelta\<close> can hold (at most 999999999 days, so \<open>G\<close> up to 1439999999999),
  \<^verbatim>\<open>build_sessions\<close> returns, and its sessions cut the hands that have a time, sorted by
  time, into consecutive runs: inside a session each hand is at most \<open>G\<close> minutes after
  the one before, and the first hand of the next session is strictly more than \<open>G\<close>
  minutes after the last hand of this one. So a difference of exactly \<open>G\<close> minutes keeps
  two hands together, any longer one separates them, with \<open>G = 0\<close> equal times stay
  together, and every hand with a time is in a session, a lone last one too.
\<close>

theorem build_sessions_gap_rule:
  assumes "\<bar>G div 1440\<bar> \<le> 999999999"
  shows "\<exists>ss. build_sessions hs G = Inr ss
           \<and> concat (map hands ss) = sort_key datetime (filter (\<lambda>h. datetime h \<noteq> None) hs)
           \<and> segmented G (map hands ss)"
proof -
  from build_sessions_total [OF assms] obtain ss where ss: "build_sessions hs G = Inr ss" by blast
  from build_sessions_Inr [OF ss] ss show ?thesis by blast
qed

lemma example_hands_sessions:
  "map_sum id (map (map hand_id \<circ> hands)) (build_sessions example_hands 30)
   = Inr [[ObjId 1, ObjId 2], [ObjId 3]]"
  by code_simp

theorem build_sessions_gap_rule_witness:
  "\<bar>30 div 1440\<bar> \<le> (999999999 :: int)
   \<and> (\<exists>ss. build_sessions example_hands 30 = Inr ss
          \<and> map (map hand_id \<circ> hands) ss = [[ObjId 1, ObjId 2], [ObjId 3]]
          \<and> segmented 30 (map hands ss))"
proof -
  have h: "\<bar>30 div 1440\<bar> \<le> (999999999 :: int)" by simp
  from build_sessions_gap_rule [OF h, of example_hands]
  obtain ss where ss: "build_sessions example_hands 30 = Inr ss"
    and sg: "segmented 30 (map hands ss)" by blast
  from example_hands_sessions have "map (map hand_id \<circ> hands) ss = [[ObjId 1, ObjId 2], [ObjId 3]]"
    unfolding ss by simp
  with ss sg have "\<exists>ss. build_sessions example_hands 30 = Inr ss
          \<and> map (map hand_id \<circ> hands) ss = [[ObjId 1, ObjId 2], [ObjId 3]]
          \<and> segmented 30 (map hands ss)" by (intro exI [of _ ss] conjI)
  with h show ?thesis by (rule conjI)
qed

text \<open>
  Claim C9. Every session \<^verbatim>\<open>build_sessions\<close> returns has at least one hand; its hands are
  sorted by time; its start and end time are the times of its first and last hand; the
  sessions in order are the time-sorted hands cut into consecutive runs; the session
  numbers are 1, 2, 3 and so on; an earlier session ends no later than a later one
  starts, and strictly earlier when the gap threshold is not negative.
\<close>

theorem build_sessions_invariant:
  assumes "build_sessions hs G = Inr ss"
  shows "(\<forall>s\<in>set ss. hands s \<noteq> [] \<and> session.hands_count s = length (hands s)
            \<and> datetime (hd (hands s)) = Some (start_time s)
            \<and> datetime (last (hands s)) = Some (end_time s)
            \<and> sorted (map datetime (hands s)))
         \<and> concat (map hands ss) = sort_key datetime (filter (\<lambda>h. datetime h \<noteq> None) hs)
         \<and> map session_id ss = [1..<Suc (length ss)]
         \<and> (\<forall>i j. i < j \<and> j < length ss \<longrightarrow> end_time (ss ! i) \<le> start_time (ss ! j))
         \<and> (0 \<le> G \<longrightarrow> (\<forall>i j. i < j \<and> j < length ss \<longrightarrow> end_time (ss ! i) < start_time (ss ! j)))"
proof -
  let ?gs = "map hands ss"
  from build_sessions_Inr [OF assms] have
    cc: "concat ?gs = sort_key datetime (filter (\<lambda>h. datetime h \<noteq> None) hs)"
    and sg: "segmented G ?gs"
    and ids: "map session_id ss = [1..<Suc (length ss)]"
    and mk: "\<forall>s\<in>set ss. make_session (session_id s) (hands s) = Inr s" by auto
  have srt: "sorted (map datetime (concat ?gs))" unfolding cc by (rule sorted_sort_key)
  have each: "hands s \<noteq> [] \<and> session.hands_count s = length (hands s)
            \<and> datetime (hd (hands s)) = Some (start_time s)
            \<and> datetime (last (hands s)) = Some (end_time s)
            \<and> sorted (map datetime (hands s))" if "s \<in> set ss" for s
  proof -
    from mk that have "make_session (session_id s) (hands s) = Inr s" by blast
    from make_session_Inr [OF this] have "hands s \<noteq> []" "session.hands_count s = length (hands s)"
      "datetime (hd (hands s)) = Some (start_time s)" "datetime (last (hands s)) = Some (end_time s)"
      by auto
    moreover have "sorted (map datetime (hands s))"
      by (rule sorted_concat_elem [OF srt]) (use that in simp)
    ultimately show ?thesis by simp
  qed
  have first_le: "start_time (ss ! i) \<le> start_time (ss ! j)" if "i \<le> j" "j < length ss" for i j
  proof (cases "i = j")
    case True
    then show ?thesis by simp
  next
    case False
    with that have lt: "i < j" by simp
    have i: "ss ! i \<in> set ss" and j: "ss ! j \<in> set ss" using that lt by auto
    have "datetime (hd (hands (ss ! i))) \<le> datetime (hd (hands (ss ! j)))"
      by (rule sorted_concat_across [OF srt lt]) (use that lt each [OF i] each [OF j] in auto)
    then show ?thesis using each [OF i] each [OF j] by simp
  qed
  have weak: "end_time (ss ! i) \<le> start_time (ss ! j)" if "i < j" "j < length ss" for i j
  proof -
    have i: "ss ! i \<in> set ss" and j: "ss ! j \<in> set ss" using that by auto
    have "datetime (last (hands (ss ! i))) \<le> datetime (hd (hands (ss ! j)))"
      by (rule sorted_concat_across [OF srt that(1)]) (use that each [OF i] each [OF j] in auto)
    then show ?thesis using each [OF i] each [OF j] by simp
  qed
  have strict: "end_time (ss ! i) < start_time (ss ! j)" if "0 \<le> G" "i < j" "j < length ss" for i j
  proof -
    have si: "Suc i < length ?gs" using that by simp
    have i: "ss ! i \<in> set ss" and i1: "ss ! Suc i \<in> set ss" using that by auto
    from segmented_adjacent [OF sg si]
    have "gap_exceeded G (last (hands (ss ! i))) (hd (hands (ss ! Suc i)))"
      using that by simp
    then have "start_time (ss ! Suc i) - end_time (ss ! i) > 60 * G"
      using each [OF i] each [OF i1] by (simp add: gap_exceeded_def)
    moreover have "start_time (ss ! Suc i) \<le> start_time (ss ! j)"
      by (rule first_le) (use that in auto)
    ultimately show ?thesis using that(1) by linarith
  qed
  show ?thesis using each cc ids weak strict by blast
qed

lemma example_ties_sessions:
  "build_sessions example_ties 0
   = Inr [\<lparr>session_id = 1, start_time = 5, end_time = 5, duration_minutes = 0, hands_count = 2,
            limit = ''NL25'', total_result_money = 0, total_result_bb = None, bb_per_100 = None,
            hands = [example_hand 1 (Some 5) ''NL25'' None 0, example_hand 2 (Some 5) ''NL25'' None 0]\<rparr>,
          \<lparr>session_id = 2, start_time = 6, end_time = 6, duration_minutes = 0, hands_count = 1,
            limit = ''PL10'', total_result_money = 0, total_result_bb = None, bb_per_100 = None,
            hands = [example_hand 3 (Some 6) ''PL10'' None 0]\<rparr>]"
  by code_simp

theorem build_sessions_invariant_witness:
  "\<exists>ss. build_sessions example_ties 0 = Inr ss \<and> length ss = 2
     \<and> map session_id ss = [1..<Suc (length ss)]
     \<and> end_time (ss ! 0) < start_time (ss ! 1)"
proof -
  obtain ss where ss: "build_sessions example_ties 0 = Inr ss" and len: "length ss = 2"
    using example_ties_sessions by simp
  note inv = build_sessions_invariant [OF ss]
  have ids: "map session_id ss = [1..<Suc (length ss)]"
    by (rule inv [THEN conjunct2, THEN conjunct2, THEN conjunct1])
  from inv [THEN conjunct2, THEN conjunct2, THEN conjunct2, THEN conjunct2]
  have "\<forall>i j. i < j \<and> j < length ss \<longrightarrow> end_time (ss ! i) < start_time (ss ! j)"
    by (rule mp) simp
  then have "0 < (1::nat) \<and> 1 < length ss \<longrightarrow> end_time (ss ! 0) < start_time (ss ! 1)" by blast
  then have "end_time (ss ! 0) < start_time (ss ! 1)" using len by simp
  with ss len ids show ?thesis by (intro exI [of _ ss] conjI)
qed

section \<open>The stake aggregator: totals by label\<close>

lemma map_fst_update_entry: "map fst (update_entry k f xs) = map fst xs"
  by (induction k f xs rule: update_entry.induct) auto

lemma set_update_entry:
  assumes "distinct (map fst xs)"
  shows "set (update_entry k f xs) = {(k', d) \<in> set xs. k' \<noteq> k} \<union> {(k, f d) | d. (k, d) \<in> set xs}"
  using assms
proof (induction k f xs rule: update_entry.induct)
  case (1 k f)
  then show ?case by simp
next
  case (2 k f k' d rest)
  show ?case
  proof (cases "k' = k")
    case True
    with 2 have "\<forall>d'. (k, d') \<notin> set rest" by (auto simp: image_iff)
    with True show ?thesis by auto
  next
    case False
    with 2 show ?thesis by auto
  qed
qed

lemma stake_sum_snoc_other:
  "session.limit s \<noteq> k \<Longrightarrow> stake_sum k (ss @ [s]) = stake_sum k ss"
  by (simp add: stake_sum_def)

lemma stake_sum_snoc_same:
  "stake_sum (session.limit s) (ss @ [s]) =
     (stake_sum (session.limit s) ss)
       \<lparr>sessions_count := sessions_count (stake_sum (session.limit s) ss) + 1,
        stake_totals.hands_count := stake_totals.hands_count (stake_sum (session.limit s) ss) + session.hands_count s,
        stake_totals.total_result_money :=
          stake_totals.total_result_money (stake_sum (session.limit s) ss) + session.total_result_money s,
        stake_totals.total_result_bb :=
          (case session.total_result_bb s of
             Some b \<Rightarrow> stake_totals.total_result_bb (stake_sum (session.limit s) ss) + b
           | None \<Rightarrow> stake_totals.total_result_bb (stake_sum (session.limit s) ss))\<rparr>"
  by (simp add: stake_sum_def Let_def split: option.splits)

lemma stake_sum_absent:
  "l \<notin> session.limit ` set ss \<Longrightarrow>
   stake_sum l ss = \<lparr>limit = l, sessions_count = 0, hands_count = 0, total_result_money = 0,
                     total_result_bb = 0\<rparr>"
proof -
  assume "l \<notin> session.limit ` set ss"
  then have "filter (\<lambda>s. session.limit s = l) ss = []" by (auto simp: filter_empty_conv)
  then show ?thesis by (simp add: stake_sum_def)
qed

lemma stats_inv_distinct: "stats_inv ss acc \<Longrightarrow> distinct (map fst acc)"
  by (simp add: stats_inv_def)

lemma stats_inv_keys:
  "stats_inv ss acc \<Longrightarrow> set (map fst acc) = {l \<in> session.limit ` set ss. l \<noteq> ''mixed''}"
  by (simp add: stats_inv_def)

lemma stats_inv_value: "stats_inv ss acc \<Longrightarrow> (k, d) \<in> set acc \<Longrightarrow> d = stake_sum k ss"
  unfolding stats_inv_def by blast

lemma stats_inv_key_not_mixed: "stats_inv ss acc \<Longrightarrow> (k, d) \<in> set acc \<Longrightarrow> k \<noteq> ''mixed''"
proof -
  assume inv: "stats_inv ss acc" and "(k, d) \<in> set acc"
  then have "k \<in> set (map fst acc)" by force
  with stats_inv_keys [OF inv] show ?thesis by simp
qed

lemma add_session_mixed: "session.limit s = ''mixed'' \<Longrightarrow> add_session acc s = acc"
  by (simp add: add_session_def)

lemma add_session_inv_mixed:
  assumes "stats_inv ss acc" and "session.limit s = ''mixed''"
  shows "stats_inv (ss @ [s]) (add_session acc s)"
proof -
  have v: "d = stake_sum k (ss @ [s])" if "(k, d) \<in> set acc" for k d
  proof -
    have "k \<noteq> ''mixed''" by (rule stats_inv_key_not_mixed [OF assms(1) that])
    then have "session.limit s \<noteq> k" using assms(2) by simp
    then have "stake_sum k (ss @ [s]) = stake_sum k ss" by (rule stake_sum_snoc_other)
    with stats_inv_value [OF assms(1) that] show ?thesis by simp
  qed
  have k: "set (map fst acc) = {l \<in> session.limit ` set (ss @ [s]). l \<noteq> ''mixed''}"
    using stats_inv_keys [OF assms(1)] assms(2) by auto
  show ?thesis
    unfolding add_session_mixed [OF assms(2)] stats_inv_def
    using stats_inv_distinct [OF assms(1)] k v by blast
qed

lemma add_session_inv_label:
  assumes "stats_inv ss acc" and "session.limit s \<noteq> ''mixed''"
  shows "stats_inv (ss @ [s]) (add_session acc s)"
proof -
  let ?l = "session.limit s"
  define zero :: stake_totals where
    "zero = \<lparr>limit = ?l, sessions_count = 0, hands_count = 0, total_result_money = 0,
             total_result_bb = 0\<rparr>"
  define stats1 where
    "stats1 = (if ?l \<notin> set (map fst acc) then acc @ [(?l, zero)] else acc)"
  define f :: "stake_totals \<Rightarrow> stake_totals" where
    "f = (\<lambda>d. d\<lparr>sessions_count := sessions_count d + 1,
                 stake_totals.hands_count := stake_totals.hands_count d + session.hands_count s,
                 stake_totals.total_result_money :=
                   stake_totals.total_result_money d + session.total_result_money s,
                 stake_totals.total_result_bb :=
                   (case session.total_result_bb s of
                      Some b \<Rightarrow> stake_totals.total_result_bb d + b
                    | None \<Rightarrow> stake_totals.total_result_bb d)\<rparr>)"
  have eq: "add_session acc s = update_entry ?l f stats1"
    using assms(2) by (simp add: add_session_def stats1_def f_def zero_def Let_def)
  have d1: "distinct (map fst stats1)"
    using stats_inv_distinct [OF assms(1)] by (simp add: stats1_def)
  have k1: "set (map fst stats1) = insert ?l (set (map fst acc))"
    by (auto simp: stats1_def)
  have v1: "d = stake_sum k ss" if "(k, d) \<in> set stats1" for k d
  proof (cases "(k, d) \<in> set acc")
    case True
    then show ?thesis by (rule stats_inv_value [OF assms(1)])
  next
    case False
    with that have new: "?l \<notin> set (map fst acc)" "k = ?l" "d = zero"
      by (auto simp: stats1_def split: if_splits)
    from new(1) stats_inv_keys [OF assms(1)] assms(2) have "?l \<notin> session.limit ` set ss"
      by blast
    from stake_sum_absent [OF this] new show ?thesis by (simp add: zero_def)
  qed
  have fs: "f (stake_sum ?l ss) = stake_sum ?l (ss @ [s])"
    by (simp add: f_def stake_sum_snoc_same)
  have v2: "d = stake_sum k (ss @ [s])" if "(k, d) \<in> set (update_entry ?l f stats1)" for k d
  proof -
    from that have "(k, d) \<in> {(k', d) \<in> set stats1. k' \<noteq> ?l} \<union> {(?l, f d) | d. (?l, d) \<in> set stats1}"
      unfolding set_update_entry [OF d1] .
    then consider "(k, d) \<in> set stats1" "k \<noteq> ?l" | d0 where "k = ?l" "d = f d0" "(?l, d0) \<in> set stats1"
      by blast
    then show ?thesis
    proof cases
      case 1
      from 1(2) have "stake_sum k (ss @ [s]) = stake_sum k ss"
        by (intro stake_sum_snoc_other) simp
      with v1 [OF 1(1)] show ?thesis by simp
    next
      case 2
      from v1 [OF 2(3)] have "d0 = stake_sum ?l ss" .
      with 2 fs show ?thesis by simp
    qed
  qed
  have keys: "set (map fst (update_entry ?l f stats1)) = {l \<in> session.limit ` set (ss @ [s]). l \<noteq> ''mixed''}"
    unfolding map_fst_update_entry k1 stats_inv_keys [OF assms(1)] using assms(2) by auto
  have dist: "distinct (map fst (update_entry ?l f stats1))"
    unfolding map_fst_update_entry by (rule d1)
  show ?thesis
    unfolding stats_inv_def eq using dist keys v2 by blast
qed

lemma foldl_add_session_inv: "stats_inv ss (foldl add_session [] ss)"
proof (induction ss rule: rev_induct)
  case Nil
  then show ?case by (simp add: stats_inv_def)
next
  case (snoc s ss)
  then show ?case
    by (cases "session.limit s = ''mixed''") (simp_all add: add_session_inv_mixed add_session_inv_label)
qed


lemma finish_stat_totals:
  "stake_totals.limit (finish_stat d) = stake_totals.limit d
   \<and> sessions_count (finish_stat d) = sessions_count d
   \<and> stake_totals.hands_count (finish_stat d) = stake_totals.hands_count d
   \<and> stake_totals.total_result_money (finish_stat d) = stake_totals.total_result_money d
   \<and> stake_totals.total_result_bb (finish_stat d) = stake_totals.total_result_bb d"
  by (simp add: finish_stat_def stake_totals.extend_def)

lemma finish_stat_bb_per_100:
  "stake_stat.bb_per_100 (finish_stat d) =
     (if 0 < stake_totals.hands_count d \<and> stake_totals.total_result_bb d \<noteq> 0
      then Some (round2 (stake_totals.total_result_bb d / of_nat (stake_totals.hands_count d) * 100))
      else None)"
  by (simp add: finish_stat_def stake_totals.extend_def stake_stat.fields_def)

lemma stake_sum_fields:
  "stake_totals.limit (stake_sum l ss) = l
   \<and> sessions_count (stake_sum l ss) = length (filter (\<lambda>s. session.limit s = l) ss)
   \<and> stake_totals.hands_count (stake_sum l ss) =
       sum_list (map session.hands_count (filter (\<lambda>s. session.limit s = l) ss))
   \<and> stake_totals.total_result_money (stake_sum l ss) =
       sum_list (map session.total_result_money (filter (\<lambda>s. session.limit s = l) ss))
   \<and> stake_totals.total_result_bb (stake_sum l ss) =
       sum_list (map (\<lambda>s. case session.total_result_bb s of Some b \<Rightarrow> b | None \<Rightarrow> 0)
                  (filter (\<lambda>s. session.limit s = l) ss))"
  by (simp add: stake_sum_def Let_def)

lemma finish_stake_sum:
  "stake_totals.limit (finish_stat (stake_sum l ss)) = l
   \<and> sessions_count (finish_stat (stake_sum l ss)) = length (filter (\<lambda>s. session.limit s = l) ss)
   \<and> stake_totals.hands_count (finish_stat (stake_sum l ss)) =
       sum_list (map session.hands_count (filter (\<lambda>s. session.limit s = l) ss))
   \<and> stake_totals.total_result_money (finish_stat (stake_sum l ss)) =
       sum_list (map session.total_result_money (filter (\<lambda>s. session.limit s = l) ss))
   \<and> stake_totals.total_result_bb (finish_stat (stake_sum l ss)) =
       sum_list (map (\<lambda>s. case session.total_result_bb s of Some b \<Rightarrow> b | None \<Rightarrow> 0)
                  (filter (\<lambda>s. session.limit s = l) ss))"
  by (simp only: finish_stat_totals stake_sum_fields simp_thms)

lemma finish_stake_sum_bb_per_100:
  "stake_stat.bb_per_100 (finish_stat (stake_sum l ss)) =
     (if 0 < stake_totals.hands_count (finish_stat (stake_sum l ss))
         \<and> stake_totals.total_result_bb (finish_stat (stake_sum l ss)) \<noteq> 0
      then Some (round2 (stake_totals.total_result_bb (finish_stat (stake_sum l ss))
                         / of_nat (stake_totals.hands_count (finish_stat (stake_sum l ss))) * 100))
      else None)"
  by (simp only: finish_stat_bb_per_100 finish_stat_totals)

lemma build_limits_stats_elem:
  assumes "d \<in> set (build_limits_stats ss)"
  obtains l where "l \<in> session.limit ` set ss" and "l \<noteq> ''mixed''"
    and "d = finish_stat (stake_sum l ss)"
proof -
  let ?acc = "foldl add_session [] ss"
  have inv: "stats_inv ss ?acc" by (rule foldl_add_session_inv)
  from assms obtain k t where kt: "(k, t) \<in> set ?acc" and d: "d = finish_stat t"
    by (auto simp: build_limits_stats_def)
  have t: "t = stake_sum k ss" by (rule stats_inv_value [OF inv kt])
  have "k \<in> set (map fst ?acc)" using kt by force
  then have k: "k \<in> session.limit ` set ss" "k \<noteq> ''mixed''"
    unfolding stats_inv_keys [OF inv] by simp_all
  show ?thesis by (rule that [OF k]) (simp only: d t)
qed

lemma build_limits_stats_limits:
  "map stake_totals.limit (build_limits_stats ss) = map fst (foldl add_session [] ss)"
proof -
  let ?acc = "foldl add_session [] ss"
  have inv: "stats_inv ss ?acc" by (rule foldl_add_session_inv)
  have "stake_totals.limit (finish_stat (snd e)) = fst e" if "e \<in> set ?acc" for e
  proof -
    obtain k t where e: "e = (k, t)" by (cases e)
    with that have "t = stake_sum k ss" using stats_inv_value [OF inv] by simp
    then show ?thesis unfolding e using finish_stake_sum [of k ss] by simp
  qed
  then show ?thesis by (simp add: build_limits_stats_def)
qed

lemma foldl_add_session_filter:
  "foldl add_session acc (filter (\<lambda>s. session.limit s \<noteq> ''mixed'') ss) = foldl add_session acc ss"
  by (induction ss arbitrary: acc) (simp_all add: add_session_mixed)

lemma make_session_mixed:
  assumes "make_session idx sess = Inr s" and "a \<in> set sess" and "b \<in> set sess"
    and "hand.limit a \<noteq> hand.limit b"
  shows "session.limit s = ''mixed''"
proof -
  let ?ls = "remdups (map hand.limit sess)"
  have lim: "session.limit s = (case ?ls of [l] \<Rightarrow> l | _ \<Rightarrow> ''mixed'')"
    using make_session_Inr [OF assms(1)] by simp
  have "\<not> (\<exists>l. ?ls = [l])"
  proof
    assume "\<exists>l. ?ls = [l]"
    then obtain l where l: "?ls = [l]" by blast
    have "set ?ls = hand.limit ` set sess" by simp
    with l have "hand.limit ` set sess = {l}" by simp
    with assms(2,3) have "hand.limit a = l" "hand.limit b = l" by blast+
    with assms(4) show False by simp
  qed
  then show ?thesis unfolding lim by (auto split: list.splits)
qed

text \<open>
  Claim C4. For every session list, \<^verbatim>\<open>build_limits_stats\<close> returns one entry for each
  stake label of a session other than \<^verbatim>\<open>"mixed"\<close>, no label twice; the list is the same
  with the \<^verbatim>\<open>"mixed"\<close> sessions removed from the input; the counts and sums of an entry
  are those of the sessions of its own label, so a \<^verbatim>\<open>"mixed"\<close> session adds to none. A
  session \<^verbatim>\<open>build_sessions\<close> returns whose hands carry two different stake labels has the
  label \<^verbatim>\<open>"mixed"\<close>.
\<close>

theorem build_limits_stats_labels:
  "distinct (map stake_totals.limit (build_limits_stats ss))
   \<and> set (map stake_totals.limit (build_limits_stats ss)) = {l \<in> session.limit ` set ss. l \<noteq> ''mixed''}
   \<and> build_limits_stats ss = build_limits_stats (filter (\<lambda>s. session.limit s \<noteq> ''mixed'') ss)
   \<and> (\<forall>d\<in>set (build_limits_stats ss).
         sessions_count d = length (filter (\<lambda>s. session.limit s = stake_totals.limit d) ss)
         \<and> stake_totals.hands_count d =
             sum_list (map session.hands_count (filter (\<lambda>s. session.limit s = stake_totals.limit d) ss))
         \<and> stake_totals.total_result_money d =
             sum_list (map session.total_result_money
                        (filter (\<lambda>s. session.limit s = stake_totals.limit d) ss))
         \<and> stake_totals.total_result_bb d =
             sum_list (map (\<lambda>s. case session.total_result_bb s of Some b \<Rightarrow> b | None \<Rightarrow> 0)
                        (filter (\<lambda>s. session.limit s = stake_totals.limit d) ss)))
   \<and> (build_sessions hs G = Inr built \<longrightarrow>
        (\<forall>s\<in>set built.
           (\<exists>a\<in>set (hands s). \<exists>b\<in>set (hands s). hand.limit a \<noteq> hand.limit b)
             \<longrightarrow> session.limit s = ''mixed''))"
proof (intro conjI ballI impI)
  let ?acc = "foldl add_session [] ss"
  have inv: "stats_inv ss ?acc" by (rule foldl_add_session_inv)
  show "distinct (map stake_totals.limit (build_limits_stats ss))"
    unfolding build_limits_stats_limits by (rule stats_inv_distinct [OF inv])
  show "set (map stake_totals.limit (build_limits_stats ss)) = {l \<in> session.limit ` set ss. l \<noteq> ''mixed''}"
    unfolding build_limits_stats_limits by (rule stats_inv_keys [OF inv])
  show "build_limits_stats ss = build_limits_stats (filter (\<lambda>s. session.limit s \<noteq> ''mixed'') ss)"
    by (simp only: build_limits_stats_def foldl_add_session_filter)
next
  fix d assume "d \<in> set (build_limits_stats ss)"
  then obtain l where d: "d = finish_stat (stake_sum l ss)" by (rule build_limits_stats_elem)
  show "sessions_count d = length (filter (\<lambda>s. session.limit s = stake_totals.limit d) ss)"
    unfolding d by (simp only: finish_stake_sum)
next
  fix d assume "d \<in> set (build_limits_stats ss)"
  then obtain l where d: "d = finish_stat (stake_sum l ss)" by (rule build_limits_stats_elem)
  show "stake_totals.hands_count d =
      sum_list (map session.hands_count (filter (\<lambda>s. session.limit s = stake_totals.limit d) ss))"
    unfolding d by (simp only: finish_stake_sum)
next
  fix d assume "d \<in> set (build_limits_stats ss)"
  then obtain l where d: "d = finish_stat (stake_sum l ss)" by (rule build_limits_stats_elem)
  show "stake_totals.total_result_money d =
      sum_list (map session.total_result_money (filter (\<lambda>s. session.limit s = stake_totals.limit d) ss))"
    unfolding d by (simp only: finish_stake_sum)
next
  fix d assume "d \<in> set (build_limits_stats ss)"
  then obtain l where d: "d = finish_stat (stake_sum l ss)" by (rule build_limits_stats_elem)
  show "stake_totals.total_result_bb d =
      sum_list (map (\<lambda>s. case session.total_result_bb s of Some b \<Rightarrow> b | None \<Rightarrow> 0)
                 (filter (\<lambda>s. session.limit s = stake_totals.limit d) ss))"
    unfolding d by (simp only: finish_stake_sum)
next
  fix s assume built: "build_sessions hs G = Inr built" and s: "s \<in> set built"
    and two: "\<exists>a\<in>set (hands s). \<exists>b\<in>set (hands s). hand.limit a \<noteq> hand.limit b"
  from two obtain a b where ab: "a \<in> set (hands s)" "b \<in> set (hands s)" "hand.limit a \<noteq> hand.limit b"
    by blast
  from build_sessions_Inr [OF built] s
  have "make_session (session_id s) (hands s) = Inr s" by blast
  from make_session_mixed [OF this ab] show "session.limit s = ''mixed''" .
qed

lemma example_sessions_stats:
  "build_limits_stats example_sessions =
     [\<lparr>stake_totals.limit = ''NL25'', sessions_count = 2, stake_totals.hands_count = 3,
       stake_totals.total_result_money = 1 / 2, stake_totals.total_result_bb = 0,
       stake_stat.bb_per_100 = None\<rparr>,
      \<lparr>stake_totals.limit = ''PL50'', sessions_count = 1, stake_totals.hands_count = 1,
       stake_totals.total_result_money = 2, stake_totals.total_result_bb = 0,
       stake_stat.bb_per_100 = None\<rparr>,
      \<lparr>stake_totals.limit = ''NL10'', sessions_count = 1, stake_totals.hands_count = 2,
       stake_totals.total_result_money = 1 / 2, stake_totals.total_result_bb = 5,
       stake_stat.bb_per_100 = Some 250\<rparr>]"
  by code_simp

lemma example_mixed_sessions:
  "map_sum id (map hands) (build_sessions example_mixed 30) = Inr [example_mixed]"
  by code_simp

theorem build_limits_stats_labels_witness:
  "map stake_totals.limit (build_limits_stats example_sessions) = [''NL25'', ''PL50'', ''NL10'']
   \<and> distinct (map stake_totals.limit (build_limits_stats example_sessions))
   \<and> build_limits_stats example_sessions
       = build_limits_stats (filter (\<lambda>s. session.limit s \<noteq> ''mixed'') example_sessions)
   \<and> map stake_totals.hands_count (build_limits_stats example_sessions) = [3, 1, 2]
   \<and> (\<exists>built. build_sessions example_mixed 30 = Inr built \<and> map hands built = [example_mixed]
         \<and> map session.limit built = [''mixed''])"
proof -
  obtain built where built: "build_sessions example_mixed 30 = Inr built"
    and hb: "map hands built = [example_mixed]"
    using example_mixed_sessions by (cases "build_sessions example_mixed 30") auto
  note T = build_limits_stats_labels [of example_sessions example_mixed 30 built]
  have a: "map stake_totals.limit (build_limits_stats example_sessions) = [''NL25'', ''PL50'', ''NL10'']"
    unfolding example_sessions_stats by simp
  have b: "distinct (map stake_totals.limit (build_limits_stats example_sessions))"
    by (rule T [THEN conjunct1])
  have c: "build_limits_stats example_sessions
       = build_limits_stats (filter (\<lambda>s. session.limit s \<noteq> ''mixed'') example_sessions)"
    by (rule T [THEN conjunct2, THEN conjunct2, THEN conjunct1])
  have d: "map stake_totals.hands_count (build_limits_stats example_sessions) = [3, 1, 2]"
    unfolding example_sessions_stats by simp
  from hb obtain s where s: "built = [s]" and hs: "hands s = example_mixed"
    by (cases built) auto
  have two: "\<exists>a\<in>set (hands s). \<exists>b\<in>set (hands s). hand.limit a \<noteq> hand.limit b"
    unfolding hs by (auto simp: example_mixed_def example_hand_def)
  from T [THEN conjunct2, THEN conjunct2, THEN conjunct2, THEN conjunct2, rule_format, OF built _ two]
  have "session.limit s = ''mixed''" by (simp add: s)
  then have e: "\<exists>built. build_sessions example_mixed 30 = Inr built \<and> map hands built = [example_mixed]
         \<and> map session.limit built = [''mixed'']"
    using built hb s by (intro exI [of _ built]) simp
  from a b c d e show ?thesis by (intro conjI)
qed

section \<open>The summary and the caller's list\<close>

text \<open>
  Claim C7. For the empty hand list \<^verbatim>\<open>build_summary\<close> returns zero counts, zero money and
  every other field absent. When no hand has a time (and the gap threshold is one a
  \<^verbatim>\<open>timedelta\<close> can hold) \<^verbatim>\<open>build_sessions\<close> returns no session, and the summary of the
  hands and these sessions counts every hand, counts zero sessions and has both times
  absent. When some hand has a time, the summary counts every hand and every session
  given, and its first and last hand time are the least and the greatest time of a hand
  that has one.
\<close>

theorem build_summary_times:
  "build_summary [] ss =
     \<lparr>total_hands = 0, total_sessions = 0, total_result_money = 0, total_result_bb = None,
      overall_bb_per_100 = None, first_hand_time = None, last_hand_time = None\<rparr>
   \<and> ((\<forall>h\<in>set hs. datetime h = None) \<and> \<bar>G div 1440\<bar> \<le> 999999999 \<longrightarrow>
        build_sessions hs G = Inr []
        \<and> total_hands (build_summary hs []) = length hs
        \<and> total_sessions (build_summary hs []) = 0
        \<and> first_hand_time (build_summary hs []) = None
        \<and> last_hand_time (build_summary hs []) = None)
   \<and> ((\<exists>h\<in>set hs. datetime h \<noteq> None) \<longrightarrow>
        total_hands (build_summary hs ss) = length hs
        \<and> total_sessions (build_summary hs ss) = length ss
        \<and> first_hand_time (build_summary hs ss) = Some (Min {t. \<exists>h\<in>set hs. datetime h = Some t})
        \<and> last_hand_time (build_summary hs ss) = Some (Max {t. \<exists>h\<in>set hs. datetime h = Some t}))"
proof (intro conjI impI)
  show "build_summary [] ss =
     \<lparr>total_hands = 0, total_sessions = 0, total_result_money = 0, total_result_bb = None,
      overall_bb_per_100 = None, first_hand_time = None, last_hand_time = None\<rparr>"
    by (simp add: build_summary_def)
next
  assume a: "(\<forall>h\<in>set hs. datetime h = None) \<and> \<bar>G div 1440\<bar> \<le> 999999999"
  then have f: "filter (\<lambda>h. datetime h \<noteq> None) hs = []" by (simp add: filter_empty_conv)
  show "build_sessions hs G = Inr []"
    using a by (simp add: build_sessions_def f sessions_of_sorted_def timedelta_minutes_def)
  have t: "List.map_filter datetime hs = []"
    using a by (simp add: map_filter_def filter_empty_conv)
  show "total_hands (build_summary hs []) = length hs" by (simp add: build_summary_def Let_def)
  show "total_sessions (build_summary hs []) = 0" by (simp add: build_summary_def Let_def)
  show "first_hand_time (build_summary hs []) = None" by (simp add: build_summary_def Let_def t)
  show "last_hand_time (build_summary hs []) = None" by (simp add: build_summary_def Let_def t)
next
  assume a: "\<exists>h\<in>set hs. datetime h \<noteq> None"
  then have ne: "hs \<noteq> []" by auto
  have st: "set (List.map_filter datetime hs) = {t. \<exists>h\<in>set hs. datetime h = Some t}"
    by (induction hs) (auto split: option.splits)
  from a have t: "List.map_filter datetime hs \<noteq> []"
    by (auto simp: map_filter_def filter_empty_conv)
  show "total_hands (build_summary hs ss) = length hs" using ne by (simp add: build_summary_def Let_def)
  show "total_sessions (build_summary hs ss) = length ss" using ne by (simp add: build_summary_def Let_def)
  show "first_hand_time (build_summary hs ss) = Some (Min {t. \<exists>h\<in>set hs. datetime h = Some t})"
    using ne t by (simp add: build_summary_def Let_def st)
  show "last_hand_time (build_summary hs ss) = Some (Max {t. \<exists>h\<in>set hs. datetime h = Some t})"
    using ne t by (simp add: build_summary_def Let_def st)
qed

text \<open>
  Claim C10. \<^verbatim>\<open>build_sessions\<close> leaves every list object that existed before the call as
  it was, the caller's list included, with the same hands in the same order: the
  filter builds a new object and the sort works on that one. Its result is that of
  \<open>build_sessions\<close> on the content of the caller's list, and \<^verbatim>\<open>build_summary\<close>, run
  afterwards on the caller's list, sees the hands as they were.
\<close>

theorem build_sessions_store_frame:
  assumes "hands_ref < length store"
  shows "take (length store) (fst (build_sessions_store store hands_ref G)) = store
         \<and> fst (build_sessions_store store hands_ref G) ! hands_ref = store ! hands_ref
         \<and> snd (build_sessions_store store hands_ref G) = build_sessions (store ! hands_ref) G
         \<and> build_summary (fst (build_sessions_store store hands_ref G) ! hands_ref) ss
             = build_summary (store ! hands_ref) ss"
proof -
  let ?new = "filter (\<lambda>h. datetime h \<noteq> None) (store ! hands_ref)"
  have fst_eq: "fst (build_sessions_store store hands_ref G) = store @ [sort_key datetime ?new]"
    by (simp add: build_sessions_store_def Let_def)
  have snd_eq: "snd (build_sessions_store store hands_ref G) = build_sessions (store ! hands_ref) G"
    by (simp add: build_sessions_store_def build_sessions_def Let_def)
  have same: "fst (build_sessions_store store hands_ref G) ! hands_ref = store ! hands_ref"
    unfolding fst_eq using assms by (simp add: nth_append)
  show ?thesis unfolding same using snd_eq by (simp add: fst_eq)
qed


lemma example_untimed_times: "map datetime example_untimed = [None, None]"
  by code_simp

lemma example_hands_summary:
  "first_hand_time (build_summary example_hands []) = Some 0
   \<and> last_hand_time (build_summary example_hands []) = Some 3601"
  by code_simp

theorem build_summary_times_witness:
  "map datetime example_untimed = [None, None] \<and> \<bar>30 div 1440\<bar> \<le> (999999999 :: int)
   \<and> build_sessions example_untimed 30 = Inr []
   \<and> total_hands (build_summary example_untimed []) = 2
   \<and> total_sessions (build_summary example_untimed []) = 0
   \<and> first_hand_time (build_summary example_untimed []) = None
   \<and> last_hand_time (build_summary example_untimed []) = None
   \<and> map datetime example_hands = [Some 3601, None, Some 0, Some 1800]
   \<and> Min {t. \<exists>h\<in>set example_hands. datetime h = Some t} = 0
   \<and> Max {t. \<exists>h\<in>set example_hands. datetime h = Some t} = 3601"
proof -
  note T = build_summary_times [of "[]" example_untimed 30]
  have none: "\<forall>h\<in>set example_untimed. datetime h = None"
    using example_untimed_times by (simp add: example_untimed_def)
  have g: "\<bar>30 div 1440\<bar> \<le> (999999999 :: int)" by simp
  from T [THEN conjunct2, THEN conjunct1, rule_format, OF conjI, OF none g]
  have a: "build_sessions example_untimed 30 = Inr []
        \<and> total_hands (build_summary example_untimed []) = length example_untimed
        \<and> total_sessions (build_summary example_untimed []) = 0
        \<and> first_hand_time (build_summary example_untimed []) = None
        \<and> last_hand_time (build_summary example_untimed []) = None" .
  have len: "length example_untimed = 2" by (simp add: example_untimed_def)
  have times: "map datetime example_hands = [Some 3601, None, Some 0, Some 1800]"
    by (simp add: example_hands_def example_hand_def)
  have some: "\<exists>h\<in>set example_hands. datetime h \<noteq> None"
    by (auto simp: example_hands_def example_hand_def)
  note U = build_summary_times [of "[]" example_hands 30]
  from U [THEN conjunct2, THEN conjunct2, rule_format, OF some]
  have b: "first_hand_time (build_summary example_hands []) = Some (Min {t. \<exists>h\<in>set example_hands. datetime h = Some t})"
    "last_hand_time (build_summary example_hands []) = Some (Max {t. \<exists>h\<in>set example_hands. datetime h = Some t})"
    by blast+
  from b example_hands_summary
  have c: "Min {t. \<exists>h\<in>set example_hands. datetime h = Some t} = 0"
    "Max {t. \<exists>h\<in>set example_hands. datetime h = Some t} = 3601" by simp_all
  show ?thesis using example_untimed_times g a len times c by (intro conjI) simp_all
qed

lemma example_store_sorted:
  "map hand_id (fst (build_sessions_store [example_ties, example_hands] 1 30) ! 2)
   = [ObjId 1, ObjId 2, ObjId 3]"
  by code_simp

theorem build_sessions_store_frame_witness:
  "1 < length [example_ties, example_hands]
   \<and> take (length [example_ties, example_hands])
        (fst (build_sessions_store [example_ties, example_hands] 1 30)) = [example_ties, example_hands]
   \<and> fst (build_sessions_store [example_ties, example_hands] 1 30) ! 1 = [example_ties, example_hands] ! 1
   \<and> map hand_id (fst (build_sessions_store [example_ties, example_hands] 1 30) ! 2)
       = [ObjId 1, ObjId 2, ObjId 3]
   \<and> map hand_id ([example_ties, example_hands] ! 1) = [ObjId 3, ObjId 0, ObjId 1, ObjId 2]
   \<and> snd (build_sessions_store [example_ties, example_hands] 1 30)
       = build_sessions ([example_ties, example_hands] ! 1) 30"
proof -
  have h: "1 < length [example_ties, example_hands]" by simp
  note T = build_sessions_store_frame [OF h, of 30 "[]"]
  have ids: "map hand_id ([example_ties, example_hands] ! 1) = [ObjId 3, ObjId 0, ObjId 1, ObjId 2]"
    by (simp add: example_hands_def example_hand_def)
  from h T [THEN conjunct1] T [THEN conjunct2, THEN conjunct1] example_store_sorted ids
    T [THEN conjunct2, THEN conjunct2, THEN conjunct1]
  show ?thesis by (intro conjI)
qed

section \<open>The hand parser: what the patterns find\<close>

lemma re_search_Some:
  "re_search m s = Some g \<longleftrightarrow>
     (\<exists>i\<le>length s. m (drop i s) = Some g \<and> (\<forall>j<i. m (drop j s) = None))"
proof (induction s)
  case Nil
  then show ?case by simp
next
  case (Cons c cs)
  show ?case
  proof (cases "m (c # cs)")
    case (Some g')
    have "(\<exists>i\<le>length (c # cs). m (drop i (c # cs)) = Some g \<and> (\<forall>j<i. m (drop j (c # cs)) = None))
          \<longleftrightarrow> g' = g"
    proof
      assume "\<exists>i\<le>length (c # cs). m (drop i (c # cs)) = Some g \<and> (\<forall>j<i. m (drop j (c # cs)) = None)"
      then obtain i where i: "m (drop i (c # cs)) = Some g" "\<forall>j<i. m (drop j (c # cs)) = None"
        by blast
      have "i = 0"
      proof (rule ccontr)
        assume "i \<noteq> 0"
        then have "m (drop 0 (c # cs)) = None" using i(2) by blast
        with Some show False by simp
      qed
      with i(1) Some show "g' = g" by simp
    next
      assume "g' = g"
      with Some have "m (drop 0 (c # cs)) = Some g \<and> (\<forall>j<0. m (drop j (c # cs)) = None)" by simp
      then show "\<exists>i\<le>length (c # cs). m (drop i (c # cs)) = Some g \<and> (\<forall>j<i. m (drop j (c # cs)) = None)"
        by blast
    qed
    with Some show ?thesis by simp
  next
    case None
    have "(\<exists>i\<le>length (c # cs). m (drop i (c # cs)) = Some g \<and> (\<forall>j<i. m (drop j (c # cs)) = None))
          \<longleftrightarrow> (\<exists>i\<le>length cs. m (drop i cs) = Some g \<and> (\<forall>j<i. m (drop j cs) = None))"
      (is "?L \<longleftrightarrow> ?R")
    proof
      assume ?L
      then obtain i where i: "i \<le> length (c # cs)" "m (drop i (c # cs)) = Some g"
        "\<forall>j<i. m (drop j (c # cs)) = None" by blast
      from i(2) None obtain k where k: "i = Suc k" by (cases i) auto
      have "\<forall>j<k. m (drop j cs) = None"
      proof (intro allI impI)
        fix j assume "j < k"
        then have "Suc j < i" using k by simp
        with i(3) have "m (drop (Suc j) (c # cs)) = None" by blast
        then show "m (drop j cs) = None" by simp
      qed
      with i k show ?R by auto
    next
      assume ?R
      then obtain i where i: "i \<le> length cs" "m (drop i cs) = Some g" "\<forall>j<i. m (drop j cs) = None"
        by blast
      have "\<forall>j<Suc i. m (drop j (c # cs)) = None"
      proof (intro allI impI)
        fix j assume j: "j < Suc i"
        show "m (drop j (c # cs)) = None"
        proof (cases j)
          case 0
          with None show ?thesis by simp
        next
          case (Suc j')
          with j i(3) show ?thesis by simp
        qed
      qed
      with i have "Suc i \<le> length (c # cs) \<and> m (drop (Suc i) (c # cs)) = Some g
        \<and> (\<forall>j<Suc i. m (drop j (c # cs)) = None)" by simp
      then show ?L by blast
    qed
    with None Cons show ?thesis by simp
  qed
qed

lemma lower_literals:
  "lower ''NL'' = ''nl''" "lower ''PL'' = ''pl''" "lower ''won'' = ''won''" "lower ''lost'' = ''lost''"
  "lower ''Hand'' = ''hand''"
  by code_simp+

lemma length_lower [simp]: "length (lower s) = length s"
  by (simp add: lower_def)

lemma lower_eq_length: "lower a = b \<Longrightarrow> length a = length b"
  by (auto simp: lower_def)

lemma lower_append: "lower (a @ b) = lower a @ lower b"
  by (simp add: lower_def)

lemma ci_prefix_iff:
  "ci_prefix lit s \<longleftrightarrow> (\<exists>t rest. s = t @ rest \<and> lower t = lower lit)"
proof
  assume "ci_prefix lit s"
  then have "s = take (length lit) s @ drop (length lit) s \<and> lower (take (length lit) s) = lower lit"
    by (simp add: ci_prefix_def)
  then show "\<exists>t rest. s = t @ rest \<and> lower t = lower lit" by blast
next
  assume "\<exists>t rest. s = t @ rest \<and> lower t = lower lit"
  then obtain t rest where s: "s = t @ rest" and l: "lower t = lower lit" by blast
  from l have "length t = length lit" by (metis length_lower)
  with s l show "ci_prefix lit s" by (simp add: ci_prefix_def)
qed

lemma digit_not_space: "is_digit c \<Longrightarrow> \<not> is_space c"
  by (auto simp: is_digit_def is_space_def)

lemma takeWhile_run:
  "list_all P ds \<Longrightarrow> takeWhile P post = [] \<Longrightarrow> takeWhile P (ds @ post) = ds"
  by (simp add: list_all_iff)

lemma dropWhile_run:
  "list_all P ds \<Longrightarrow> takeWhile P post = [] \<Longrightarrow> dropWhile P (ds @ post) = post"
proof (induction ds)
  case Nil
  then show ?case by (cases post) (auto split: if_splits)
next
  case (Cons d ds)
  then show ?case by simp
qed

lemma takeWhile_dropWhile_Nil [simp]: "takeWhile P (dropWhile P xs) = []"
  by (induction xs) auto

lemma digits1_Some:
  "digits1 s = Some ds \<longleftrightarrow> ds \<noteq> [] \<and> list_all is_digit ds
     \<and> (\<exists>post. s = ds @ post \<and> takeWhile is_digit post = [])"
proof
  assume "digits1 s = Some ds"
  then have ds: "ds = takeWhile is_digit s" "ds \<noteq> []"
    by (auto simp: digits1_def Let_def split: if_splits)
  have "s = ds @ dropWhile is_digit s" by (simp add: ds)
  moreover have "list_all is_digit ds" unfolding ds by (auto simp: list_all_iff dest: set_takeWhileD)
  ultimately show "ds \<noteq> [] \<and> list_all is_digit ds
     \<and> (\<exists>post. s = ds @ post \<and> takeWhile is_digit post = [])"
    using ds(2) takeWhile_dropWhile_Nil by blast
next
  assume "ds \<noteq> [] \<and> list_all is_digit ds \<and> (\<exists>post. s = ds @ post \<and> takeWhile is_digit post = [])"
  then obtain post where "ds \<noteq> []" "list_all is_digit ds" "s = ds @ post" "takeWhile is_digit post = []"
    by blast
  then show "digits1 s = Some ds" by (simp add: digits1_def takeWhile_run)
qed


lemma ci_prefix_len:
  "length lit = n \<Longrightarrow> ci_prefix lit s \<longleftrightarrow> n \<le> length s \<and> lower (take n s) = lower lit"
  by (auto simp: ci_prefix_def)

lemma ci_prefix_stake:
  "ci_prefix ''NL'' s \<longleftrightarrow> 2 \<le> length s \<and> lower (take 2 s) = ''nl''"
  "ci_prefix ''PL'' s \<longleftrightarrow> 2 \<le> length s \<and> lower (take 2 s) = ''pl''"
  by (simp_all add: ci_prefix_len [where n = 2] lower_literals)

lemma limit_at_Some:
  "limit_at s = Some (g0, g2) \<longleftrightarrow>
     stake_token g0 g2 \<and> (\<exists>post. s = g0 @ post \<and> takeWhile is_digit post = [])"
proof
  assume L: "limit_at s = Some (g0, g2)"
  then have pre: "ci_prefix ''NL'' s \<or> ci_prefix ''PL'' s"
    by (auto simp: limit_at_def split: if_splits)
  then have len: "2 \<le> length s" and lt: "lower (take 2 s) = ''nl'' \<or> lower (take 2 s) = ''pl''"
    unfolding ci_prefix_stake by blast+
  define t where "t = take 2 s"
  define r where "r = drop 2 s"
  have s: "s = t @ r" by (simp add: t_def r_def)
  have lt': "lower t = ''nl'' \<or> lower t = ''pl''" using lt by (simp add: t_def)
  define inner where
    "inner = (case r of c # r' \<Rightarrow> if is_space c then digits1 r' else None | [] \<Rightarrow> None)"
  have L': "(case inner of Some ds \<Rightarrow> Some (take 3 s @ ds, ds)
             | None \<Rightarrow> (case digits1 r of Some ds \<Rightarrow> Some (take 2 s @ ds, ds) | None \<Rightarrow> None))
            = Some (g0, g2)"
    unfolding inner_def r_def using L pre by (simp add: limit_at_def)
  show "stake_token g0 g2 \<and> (\<exists>post. s = g0 @ post \<and> takeWhile is_digit post = [])"
  proof (cases inner)
    case (Some ds)
    then obtain c r' where r: "r = c # r'" and sp: "is_space c" and d: "digits1 r' = Some ds"
      by (auto simp: inner_def split: list.splits if_splits)
    from d obtain post where ds: "ds \<noteq> []" "list_all is_digit ds" "r' = ds @ post"
      "takeWhile is_digit post = []" unfolding digits1_Some by blast
    have t3: "take 3 s = t @ [c]"
    proof -
      have "length t = 2" using len by (simp add: t_def)
      then show ?thesis unfolding s r by simp
    qed
    from L' Some have g: "g0 = t @ [c] @ ds" "g2 = ds" by (auto simp: t3)
    have "stake_token g0 g2"
      unfolding stake_token_def g using lt' sp ds by blast
    moreover have "s = g0 @ post" unfolding g s r ds by simp
    ultimately show ?thesis using ds(4) by blast
  next
    case None
    with L' have "(case digits1 r of Some ds \<Rightarrow> Some (take 2 s @ ds, ds) | None \<Rightarrow> None) = Some (g0, g2)"
      by simp
    then obtain ds where d: "digits1 r = Some ds" and e: "Some (take 2 s @ ds, ds) = Some (g0, g2)"
      by (cases "digits1 r") simp_all
    from e have g: "g0 = t @ ds" "g2 = ds" unfolding t_def by auto
    from d obtain post where ds: "ds \<noteq> []" "list_all is_digit ds" "r = ds @ post"
      "takeWhile is_digit post = []" unfolding digits1_Some by blast
    have "t @ ds = t @ [] @ ds" by simp
    then have "stake_token g0 g2"
      unfolding stake_token_def g using lt' ds by blast
    moreover have "s = g0 @ post" unfolding g s ds by simp
    ultimately show ?thesis using ds(4) by blast
  qed
next
  assume "stake_token g0 g2 \<and> (\<exists>post. s = g0 @ post \<and> takeWhile is_digit post = [])"
  then obtain t w post where g: "g0 = t @ w @ g2" and lt: "lower t = ''nl'' \<or> lower t = ''pl''"
    and w: "w = [] \<or> (\<exists>c. w = [c] \<and> is_space c)" and ds: "g2 \<noteq> []" "list_all is_digit g2"
    and s: "s = g0 @ post" and post: "takeWhile is_digit post = []"
    unfolding stake_token_def by blast
  have lent: "length t = 2" using lt by (auto dest: lower_eq_length)
  have s': "s = t @ (w @ g2 @ post)" unfolding s g by simp
  have pre: "ci_prefix ''NL'' s \<or> ci_prefix ''PL'' s"
    unfolding ci_prefix_iff lower_literals using lt s' by blast
  have d2: "drop 2 s = w @ g2 @ post" and t2: "take 2 s = t" using lent unfolding s' by simp_all
  have dg: "digits1 (g2 @ post) = Some g2" unfolding digits1_Some using ds post by blast
  from w show "limit_at s = Some (g0, g2)"
  proof
    assume w0: "w = []"
    from ds obtain d ds' where dd: "g2 = d # ds'" "is_digit d" by (cases g2) auto
    have "\<not> is_space d" using dd(2) by (rule digit_not_space)
    then have "(case drop 2 s of c # r \<Rightarrow> if is_space c then digits1 r else None | [] \<Rightarrow> None) = None"
      unfolding d2 w0 dd by simp
    moreover have "digits1 (drop 2 s) = Some g2" unfolding d2 w0 using dg by simp
    ultimately show ?thesis using pre by (simp add: limit_at_def t2 g w0)
  next
    assume "\<exists>c. w = [c] \<and> is_space c"
    then obtain c where wc: "w = [c]" "is_space c" by blast
    have "(case drop 2 s of c # r \<Rightarrow> if is_space c then digits1 r else None | [] \<Rightarrow> None) = Some g2"
      unfolding d2 wc using wc(2) dg by simp
    moreover have "take 3 s = t @ [c]" using lent unfolding s' wc by simp
    ultimately show ?thesis using pre by (simp add: limit_at_def g wc)
  qed
qed







lemma digit_not_sign: "is_digit c \<Longrightarrow> c \<noteq> CHR ''+'' \<and> c \<noteq> CHR ''-'' \<and> c \<noteq> CHR ''.''"
  by (auto simp: is_digit_def)

lemma py_float_digits:
  assumes "ds \<noteq> []" and "list_all is_digit ds"
  shows "py_float ds = Inr (of_nat (int_of_digits ds))"
proof -
  from assms obtain d ds' where d: "ds = d # ds'" "is_digit d" by (cases ds) auto
  have sg: "(case ds of c # _ \<Rightarrow> if c = CHR ''+'' \<or> c = CHR ''-'' then [c] else [] | [] \<Rightarrow> []) = []"
    using d digit_not_sign [OF d(2)] by simp
  have tw: "takeWhile is_digit ds = ds" "dropWhile is_digit ds = []"
    using assms(2) by (simp_all add: list_all_iff)
  show ?thesis
    unfolding py_float_def sg Let_def using assms(1) by (simp add: tw)
qed

lemma sign_char_cases:
  "(case s of c # _ \<Rightarrow> if c = CHR ''+'' \<or> c = CHR ''-'' then [c] else [] | [] \<Rightarrow> []) = sg
   \<Longrightarrow> (sg = [] \<or> sg = ''+'' \<or> sg = ''-'') \<and> s = sg @ drop (length sg) s"
  by (cases s) (auto split: if_splits)

lemma sign_char_of:
  assumes "sg = [] \<or> sg = ''+'' \<or> sg = ''-''" and "ds \<noteq> []" and "list_all is_digit ds"
  shows "(case sg @ ds @ rest of c # _ \<Rightarrow> if c = CHR ''+'' \<or> c = CHR ''-'' then [c] else [] | [] \<Rightarrow> []) = sg"
proof -
  from assms(2,3) obtain d ds' where d: "ds = d # ds'" "is_digit d" by (cases ds) auto
  from assms(1) show ?thesis using digit_not_sign [OF d(2)] by (auto simp: d)
qed

lemma list_all_takeWhile: "list_all P (takeWhile P xs)"
  by (induction xs) auto

lemma fraction_run:
  assumes "fr = [] \<or> (\<exists>fs. fr = CHR ''.'' # fs \<and> fs \<noteq> [] \<and> list_all is_digit fs)"
  shows "takeWhile is_digit (fr @ rest) = (if fr = [] then takeWhile is_digit rest else [])"
  using assms digit_not_sign by (cases fr) auto

lemma py_float_number:
  assumes "number_text n"
  shows "\<exists>v. py_float n = Inr v"
proof -
  from assms obtain sg ds fr where n: "n = sg @ ds @ fr" and sg: "sg = [] \<or> sg = ''+'' \<or> sg = ''-''"
    and ds: "ds \<noteq> []" "list_all is_digit ds"
    and fr: "fr = [] \<or> (\<exists>fs. fr = CHR ''.'' # fs \<and> fs \<noteq> [] \<and> list_all is_digit fs)"
    unfolding number_text_def by blast
  have sgn: "(case n of c # _ \<Rightarrow> if c = CHR ''+'' \<or> c = CHR ''-'' then [c] else [] | [] \<Rightarrow> []) = sg"
    unfolding n by (rule sign_char_of [OF sg ds])
  have body: "drop (length sg) n = ds @ fr" unfolding n by simp
  have tw0: "takeWhile is_digit fr = []" using fraction_run [OF fr, of "[]"] by (simp split: if_splits)
  have tw: "takeWhile is_digit (ds @ fr) = ds" by (rule takeWhile_run [OF ds(2) tw0])
  have dw: "dropWhile is_digit (ds @ fr) = fr" by (rule dropWhile_run [OF ds(2) tw0])
  from fr show ?thesis
  proof
    assume "fr = []"
    then show ?thesis unfolding py_float_def sgn Let_def body tw dw using ds(1) by simp
  next
    assume "\<exists>fs. fr = CHR ''.'' # fs \<and> fs \<noteq> [] \<and> list_all is_digit fs"
    then obtain fs where "fr = CHR ''.'' # fs" "fs \<noteq> []" "list_all is_digit fs" by blast
    then show ?thesis unfolding py_float_def sgn Let_def body tw dw using ds(1) by simp
  qed
qed

lemma number_at_text:
  assumes N: "number_at s = Some n"
  shows "number_text n \<and> (\<exists>post. s = n @ post \<and> number_ends n post)"
proof -
  define sg where "sg = (case s of c # _ \<Rightarrow> if c = CHR ''+'' \<or> c = CHR ''-'' then [c] else [] | [] \<Rightarrow> [])"
  define r where "r = drop (length sg) s"
  define ds where "ds = takeWhile is_digit r"
  define r1 where "r1 = dropWhile is_digit r"
  define fr where "fr = (case r1 of
                  c # r' \<Rightarrow> if c = CHR ''.'' \<and> takeWhile is_digit r' \<noteq> [] then c # takeWhile is_digit r' else []
                | [] \<Rightarrow> [])"
  have N': "(if ds = [] then None else Some (sg @ ds @ fr)) = Some n"
    using N unfolding number_at_def Let_def sg_def [symmetric] r_def [symmetric] ds_def [symmetric]
      r1_def [symmetric] fr_def [symmetric] .
  have dne: "ds \<noteq> []" using N' by (cases "ds = []") simp_all
  have n: "n = sg @ ds @ fr" using N' dne by simp
  from sign_char_cases [OF sg_def [symmetric]]
  have sg: "sg = [] \<or> sg = ''+'' \<or> sg = ''-''" and s: "s = sg @ r" unfolding r_def by blast+
  have r: "r = ds @ r1" unfolding ds_def r1_def by simp
  have dall: "list_all is_digit ds" unfolding ds_def by (rule list_all_takeWhile)
  have r1nd: "takeWhile is_digit r1 = []" unfolding r1_def by simp
  show ?thesis
  proof (cases "fr = []")
    case True
    have nt: "number_text n" unfolding number_text_def n using sg dne dall True by blast
    have nodot: "takeWhile is_digit r' = []" if "r1 = CHR ''.'' # r'" for r'
    proof (rule ccontr)
      assume "takeWhile is_digit r' \<noteq> []"
      then have "fr = CHR ''.'' # takeWhile is_digit r'" unfolding fr_def that by simp
      with True show False by simp
    qed
    have "number_ends n r1" unfolding number_ends_def using r1nd nodot by blast
    moreover have "s = n @ r1" unfolding n s r True by simp
    ultimately show ?thesis using nt by blast
  next
    case False
    then obtain c r' where r1: "r1 = c # r'" unfolding fr_def by (cases r1) simp_all
    have cond: "c = CHR ''.'' \<and> takeWhile is_digit r' \<noteq> []"
    proof (rule ccontr)
      assume "\<not> (c = CHR ''.'' \<and> takeWhile is_digit r' \<noteq> [])"
      then have "fr = []" unfolding fr_def r1 by simp
      with False show False by simp
    qed
    then have fr: "fr = CHR ''.'' # takeWhile is_digit r'" unfolding fr_def r1 by simp
    have "list_all is_digit (takeWhile is_digit r')" by (rule list_all_takeWhile)
    then have nt: "number_text n" unfolding number_text_def n using sg dne dall fr cond by blast
    have "CHR ''.'' \<in> set n" unfolding n fr by simp
    then have "number_ends n (dropWhile is_digit r')" unfolding number_ends_def by simp
    moreover have "s = n @ dropWhile is_digit r'" unfolding n s r r1 fr using cond by simp
    ultimately show ?thesis using nt by blast
  qed
qed


lemma digits_no_point: "list_all is_digit ds \<Longrightarrow> CHR ''.'' \<notin> set ds"
proof
  assume a: "list_all is_digit ds" and "CHR ''.'' \<in> set ds"
  then have "is_digit CHR ''.''" by (simp add: list_all_iff)
  then show False by (simp add: is_digit_def)
qed

lemma number_text_at:
  assumes "number_text n" and s: "s = n @ post" and e: "number_ends n post"
  shows "number_at s = Some n"
proof -
  from assms(1) obtain sg ds fr where n: "n = sg @ ds @ fr" and sg: "sg = [] \<or> sg = ''+'' \<or> sg = ''-''"
    and ds: "ds \<noteq> []" "list_all is_digit ds"
    and fr: "fr = [] \<or> (\<exists>fs. fr = CHR ''.'' # fs \<and> fs \<noteq> [] \<and> list_all is_digit fs)"
    unfolding number_text_def by blast
  have s': "s = sg @ ds @ (fr @ post)" unfolding s n by simp
  have sgn: "(case s of c # _ \<Rightarrow> if c = CHR ''+'' \<or> c = CHR ''-'' then [c] else [] | [] \<Rightarrow> []) = sg"
    unfolding s' by (rule sign_char_of [OF sg ds])
  have body: "drop (length sg) s = ds @ (fr @ post)" unfolding s' by simp
  have pnd: "takeWhile is_digit post = []" using e unfolding number_ends_def by blast
  have tw0: "takeWhile is_digit (fr @ post) = []"
    unfolding fraction_run [OF fr, of post] using pnd by simp
  have tw: "takeWhile is_digit (ds @ (fr @ post)) = ds" by (rule takeWhile_run [OF ds(2) tw0])
  have dw: "dropWhile is_digit (ds @ (fr @ post)) = fr @ post" by (rule dropWhile_run [OF ds(2) tw0])
  have frac: "(case fr @ post of
                  c # r' \<Rightarrow> if c = CHR ''.'' \<and> takeWhile is_digit r' \<noteq> [] then c # takeWhile is_digit r' else []
                | [] \<Rightarrow> []) = fr"
    using fr
  proof
    assume f0: "fr = []"
    have "CHR ''.'' \<notin> set sg" using sg by auto
    moreover have "CHR ''.'' \<notin> set ds" by (rule digits_no_point [OF ds(2)])
    ultimately have "CHR ''.'' \<notin> set n" unfolding n f0 by simp
    with e have nodot: "\<forall>r. post = CHR ''.'' # r \<longrightarrow> takeWhile is_digit r = []"
      unfolding number_ends_def by blast
    show ?thesis
    proof (cases post)
      case Nil
      then show ?thesis unfolding f0 by simp
    next
      case (Cons c r')
      show ?thesis
      proof (cases "c = CHR ''.''")
        case True
        with nodot Cons have "takeWhile is_digit r' = []" by blast
        then show ?thesis unfolding f0 Cons by simp
      next
        case False
        then show ?thesis unfolding f0 Cons by simp
      qed
    qed
  next
    assume "\<exists>fs. fr = CHR ''.'' # fs \<and> fs \<noteq> [] \<and> list_all is_digit fs"
    then obtain fs where f: "fr = CHR ''.'' # fs" "fs \<noteq> []" "list_all is_digit fs" by blast
    have "takeWhile is_digit (fs @ post) = fs" by (rule takeWhile_run [OF f(3) pnd])
    then show ?thesis unfolding f(1) using f(2) by simp
  qed
  show "number_at s = Some n"
    unfolding number_at_def sgn Let_def body tw dw frac using ds(1) n by simp
qed

lemma number_at_Some:
  "number_at s = Some n \<longleftrightarrow> number_text n \<and> (\<exists>post. s = n @ post \<and> number_ends n post)"
  using number_at_text number_text_at by blast


lemma lower_take: "lower (take k xs) = take k (lower xs)"
  by (simp add: lower_def take_map)

lemma ci_prefix_words:
  "ci_prefix ''won'' s \<longleftrightarrow> 3 \<le> length s \<and> lower (take 3 s) = ''won''"
  "ci_prefix ''lost'' s \<longleftrightarrow> 4 \<le> length s \<and> lower (take 4 s) = ''lost''"
  by (simp_all add: ci_prefix_len [where n = 3] ci_prefix_len [where n = 4] lower_literals)

lemma result_at_word:
  assumes R: "result_at s = Some (w, n)"
  shows "(lower w = ''won'' \<or> lower w = ''lost'')
         \<and> (\<exists>sp post. s = w @ sp # n @ post \<and> is_space sp \<and> number_text n \<and> number_ends n post)"
proof -
  define k where "k = (if ci_prefix ''won'' s then Some 3 else if ci_prefix ''lost'' s then Some (4::nat) else None)"
  have R': "(case k of None \<Rightarrow> None
             | Some m \<Rightarrow> (case drop m s of
                             c # r \<Rightarrow> if is_space c then map_option (Pair (take m s)) (number_at r) else None
                           | [] \<Rightarrow> None)) = Some (w, n)"
    using R unfolding result_at_def k_def [symmetric] .
  then obtain m where km: "k = Some m" by (cases k) simp_all
  with R' have R2: "(case drop m s of
                      c # r \<Rightarrow> if is_space c then map_option (Pair (take m s)) (number_at r) else None
                    | [] \<Rightarrow> None) = Some (w, n)" by simp
  then obtain c r where d: "drop m s = c # r" by (cases "drop m s") simp_all
  with R2 have R3: "(if is_space c then map_option (Pair (take m s)) (number_at r) else None) = Some (w, n)"
    by simp
  then have sp: "is_space c" by (cases "is_space c") simp_all
  with R3 have R4: "map_option (Pair (take m s)) (number_at r) = Some (w, n)" by simp
  then obtain n' where nn: "number_at r = Some n'" by (cases "number_at r") simp_all
  with R4 have w: "w = take m s" and n: "n' = n" by simp_all
  from nn n number_at_text obtain post where nt: "number_text n" and r: "r = n @ post"
    and ne: "number_ends n post" by blast
  have "s = take m s @ drop m s" by simp
  then have s: "s = w @ c # n @ post" unfolding d r w [symmetric] .
  have lw: "lower w = ''won'' \<or> lower w = ''lost''"
  proof (cases "ci_prefix ''won'' s")
    case True
    then have "m = 3" using km by (simp add: k_def)
    with True show ?thesis unfolding w ci_prefix_words by simp
  next
    case False
    show ?thesis
    proof (cases "ci_prefix ''lost'' s")
      case True
      then have "m = 4" using km False by (simp add: k_def)
      with True show ?thesis unfolding w ci_prefix_words by simp
    next
      case F2: False
      with False km show ?thesis by (simp add: k_def)
    qed
  qed
  from lw s sp nt ne show ?thesis by blast
qed

lemma word_result_at:
  assumes lw: "lower w = ''won'' \<or> lower w = ''lost''" and s: "s = w @ sp # n @ post"
    and sp: "is_space sp" and nt: "number_text n" and ne: "number_ends n post"
  shows "result_at s = Some (w, n)"
proof -
  have num: "number_at (n @ post) = Some n" by (rule number_text_at [OF nt refl ne])
  from lw show ?thesis
  proof
    assume won: "lower w = ''won''"
    then have len: "length w = 3" by (auto dest: lower_eq_length)
    have t: "take 3 s = w" and d: "drop 3 s = sp # n @ post" unfolding s using len by simp_all
    have c: "ci_prefix ''won'' s" unfolding ci_prefix_words t using won len s by simp
    show ?thesis unfolding result_at_def using c by (simp add: t d sp num)
  next
    assume lost: "lower w = ''lost''"
    then have len: "length w = 4" by (auto dest: lower_eq_length)
    have t: "take 4 s = w" and d: "drop 4 s = sp # n @ post" unfolding s using len by simp_all
    have t3: "take 3 s = take 3 w" unfolding s using len by simp
    have "lower (take 3 s) = lower (take 3 w)" by (simp only: t3)
    also have "\<dots> = take 3 (lower w)" by (rule lower_take)
    also have "\<dots> = take 3 ''lost''" by (simp only: lost)
    finally have "lower (take 3 s) = ''los''" by simp
    then have nc: "\<not> ci_prefix ''won'' s" unfolding ci_prefix_words by simp
    have c: "ci_prefix ''lost'' s" unfolding ci_prefix_words t using lost len s by simp
    show ?thesis unfolding result_at_def using nc c by (simp add: t d sp num)
  qed
qed


lemma lazy_dots_Some:
  assumes "lazy_dots k s = Some g"
  shows "\<exists>n\<le>length s. k (drop n s) = Some g \<and> CHR 0x0A \<notin> set (take n s)
           \<and> (\<forall>j<n. k (drop j s) = None)"
  using assms
proof (induction s)
  case Nil
  then show ?case by simp
next
  case (Cons c cs)
  show ?case
  proof (cases "k (c # cs)")
    case (Some g')
    with Cons.prems have "g' = g" by simp
    with Some have "0 \<le> length (c # cs) \<and> k (drop 0 (c # cs)) = Some g
      \<and> CHR 0x0A \<notin> set (take 0 (c # cs)) \<and> (\<forall>j<0. k (drop j (c # cs)) = None)" by simp
    then show ?thesis by blast
  next
    case None
    with Cons.prems have nl: "c \<noteq> CHR 0x0A" and rec: "lazy_dots k cs = Some g"
      by (auto split: if_splits)
    from Cons.IH [OF rec] obtain n where n: "n \<le> length cs" "k (drop n cs) = Some g"
      "CHR 0x0A \<notin> set (take n cs)" "\<forall>j<n. k (drop j cs) = None" by blast
    have "\<forall>j<Suc n. k (drop j (c # cs)) = None"
    proof (intro allI impI)
      fix j assume j: "j < Suc n"
      show "k (drop j (c # cs)) = None"
      proof (cases j)
        case 0
        with None show ?thesis by simp
      next
        case (Suc j')
        with j n(4) show ?thesis by simp
      qed
    qed
    with n nl have "Suc n \<le> length (c # cs) \<and> k (drop (Suc n) (c # cs)) = Some g
      \<and> CHR 0x0A \<notin> set (take (Suc n) (c # cs)) \<and> (\<forall>j<Suc n. k (drop j (c # cs)) = None)" by simp
    then show ?thesis by blast
  qed
qed



lemma hero_clause_iff:
  assumes "i \<le> length raw_hand"
  shows "hero_clause raw_hand hero_name i k w n \<longleftrightarrow>
           ci_prefix hero_name (drop i raw_hand)
           \<and> k \<le> length (drop (length hero_name) (drop i raw_hand))
           \<and> CHR 0x0A \<notin> set (take k (drop (length hero_name) (drop i raw_hand)))
           \<and> result_at (drop k (drop (length hero_name) (drop i raw_hand))) = Some (w, n)"
    (is "?L \<longleftrightarrow> ?R")
proof
  assume ?L
  then obtain nm mid sp post where d: "drop i raw_hand = nm @ mid @ w @ sp # n @ post"
    and nm: "lower nm = lower hero_name" and k: "length mid = k" and nl: "CHR 0x0A \<notin> set mid"
    and lw: "lower w = ''won'' \<or> lower w = ''lost''" and sp: "is_space sp"
    and nt: "number_text n" and ne: "number_ends n post"
    unfolding hero_clause_def by blast
  have len: "length nm = length hero_name" using nm by (metis length_lower)
  have c: "ci_prefix hero_name (drop i raw_hand)" unfolding ci_prefix_iff using d nm by blast
  have rest: "drop (length hero_name) (drop i raw_hand) = mid @ w @ sp # n @ post"
    unfolding d using len by simp
  have "result_at (w @ sp # n @ post) = Some (w, n)" by (rule word_result_at [OF lw refl sp nt ne])
  then show ?R unfolding rest using c k nl by simp
next
  assume r: ?R
  define rest where "rest = drop (length hero_name) (drop i raw_hand)"
  from r have c: "ci_prefix hero_name (drop i raw_hand)" and k: "k \<le> length rest"
    and nl: "CHR 0x0A \<notin> set (take k rest)" and res: "result_at (drop k rest) = Some (w, n)"
    unfolding rest_def by blast+
  from result_at_word [OF res] obtain sp post where lw: "lower w = ''won'' \<or> lower w = ''lost''"
    and dk: "drop k rest = w @ sp # n @ post" and sp: "is_space sp"
    and nt: "number_text n" and ne: "number_ends n post" by blast
  define nm where "nm = take (length hero_name) (drop i raw_hand)"
  have nm: "lower nm = lower hero_name" using c unfolding ci_prefix_def nm_def by blast
  have "drop i raw_hand = nm @ rest" unfolding nm_def rest_def by (rule append_take_drop_id [symmetric])
  also have "rest = take k rest @ drop k rest" by simp
  finally have d: "drop i raw_hand = nm @ take k rest @ w @ sp # n @ post" unfolding dk .
  have "length (take k rest) = k" using k by simp
  with d nm nl lw sp nt ne assms show ?L unfolding hero_clause_def by blast
qed


lemma hero_at_clause:
  assumes "i \<le> length raw_hand" and "hero_at hero_name (drop i raw_hand) = Some (w, n)"
  shows "\<exists>k. hero_clause raw_hand hero_name i k w n"
proof -
  define rest where "rest = drop (length hero_name) (drop i raw_hand)"
  from assms(2) have c: "ci_prefix hero_name (drop i raw_hand)"
    and l: "lazy_dots result_at rest = Some (w, n)"
    unfolding hero_at_def rest_def by (auto split: if_splits)
  from lazy_dots_Some [OF l] obtain k where "k \<le> length rest" "result_at (drop k rest) = Some (w, n)"
    "CHR 0x0A \<notin> set (take k rest)" by blast
  with c have "hero_clause raw_hand hero_name i k w n"
    unfolding hero_clause_iff [OF assms(1)] rest_def by simp
  then show ?thesis by blast
qed




lemma re_search_hero_number:
  assumes "re_search (hero_at hero_name) raw_hand = Some (w, n)"
  shows "number_text n \<and> (lower w = ''won'' \<or> lower w = ''lost'')"
proof -
  from assms obtain i where "i \<le> length raw_hand" "hero_at hero_name (drop i raw_hand) = Some (w, n)"
    unfolding re_search_Some by blast
  from hero_at_clause [OF this] show ?thesis unfolding hero_clause_def by blast
qed





lemma limit_at_chars:
  assumes "limit_at s = Some (m, ds)"
  shows "CHR 0xB5 \<notin> set m \<and> CHR 0xDF \<notin> set m \<and> CHR 0xFF \<notin> set m"
proof -
  have l: "lower_char (CHR 0xB5) = CHR 0xB5" "lower_char (CHR 0xDF) = CHR 0xDF"
    "lower_char (CHR 0xFF) = CHR 0xFF" by code_simp+
  have d: "\<not> is_digit (CHR 0xB5)" "\<not> is_digit (CHR 0xDF)" "\<not> is_digit (CHR 0xFF)" by code_simp+
  have sp: "\<not> is_space (CHR 0xB5)" "\<not> is_space (CHR 0xDF)" "\<not> is_space (CHR 0xFF)" by code_simp+
  from assms obtain t w where m: "m = t @ w @ ds" and t: "lower t = ''nl'' \<or> lower t = ''pl''"
    and w: "w = [] \<or> (\<exists>c. w = [c] \<and> is_space c)" and ds: "list_all is_digit ds"
    unfolding limit_at_Some stake_token_def by blast
  have "c \<notin> set t" if "lower_char c = c" "c \<noteq> CHR ''n''" "c \<noteq> CHR ''l''" "c \<noteq> CHR ''p''" for c
  proof
    assume "c \<in> set t"
    then have "lower_char c \<in> set (lower t)" unfolding lower_def by simp
    with t that show False by auto
  qed
  then have "CHR 0xB5 \<notin> set t" "CHR 0xDF \<notin> set t" "CHR 0xFF \<notin> set t" using l by simp_all
  moreover have "CHR 0xB5 \<notin> set w" "CHR 0xDF \<notin> set w" "CHR 0xFF \<notin> set w" using w sp by auto
  moreover have "CHR 0xB5 \<notin> set ds" "CHR 0xDF \<notin> set ds" "CHR 0xFF \<notin> set ds"
    using ds d by (auto simp: list_all_iff)
  ultimately show ?thesis unfolding m by simp
qed


lemma example_block_searches:
  "re_search limit_at example_block = Some (''nl 25'', ''25'')"
  "re_search (hero_at ''Hero'') example_block = Some (''lost'', ''1.25'')"
  "re_search date_at example_block = Some ''2024-01-02 03:04:05''"
  by code_simp+

lemma example_plain_searches:
  "re_search limit_at example_plain = None"
  "re_search (hero_at ''Hero'') example_plain = None"
  "re_search date_at example_plain = None"
  by code_simp+

lemma example_lines_parse:
  "map_sum id hero_result_money (parse_hand 0 example_lines ''Hero'') = Inr 0"
  by code_simp

lemma example_bad_date_parse:
  "parse_hand 0 example_bad_date ''Hero'' = Inl ValueError"
  by code_simp


lemma example_bad_date_searches:
  "re_search date_at example_bad_date = Some ''2024-13-01 10:00:00''"
  "strptime ''2024-13-01 10:00:00'' = Inl ValueError"
  "strptime ''2024-01-02 03:04:05'' = Inr 63839761445"
  by code_simp+


lemma strptime_error: "strptime g = Inl e \<Longrightarrow> e = ValueError"
  unfolding strptime_def Let_def by (simp split: if_splits)



text \<open>
  Claim C2, as stated, fails: \<^verbatim>\<open>strptime\<close> (line 114) stands in no \<^verbatim>\<open>try\<close>, and a block
  with a text of the shape of a date that is no date, here month 13, makes \<^verbatim>\<open>parse_hand\<close>
  raise \<^verbatim>\<open>ValueError\<close>.
\<close>

theorem parse_hand_returns_counterexample:
  "parse_hand 0 example_bad_date ''Hero'' = Inl ValueError"
  by code_simp

text \<open>
  Claim C2, amended. For every block and every hero name, \<^verbatim>\<open>parse_hand\<close> returns a hand
  unless the first text of the block of the shape \<^verbatim>\<open>dddd-dd-dd dd:dd:dd\<close> is not a date
  and time of the calendar; then, and only then, it raises, and the exception is the
  \<^verbatim>\<open>ValueError\<close> of \<^verbatim>\<open>strptime\<close>. With no such text the hand has no time; no other
  extraction can raise, whatever the hero name.
\<close>

theorem parse_hand_returns:
  "(re_search date_at raw_hand = None
      \<longrightarrow> (\<exists>h. parse_hand raw_id raw_hand hero_name = Inr h \<and> datetime h = None))
   \<and> (\<forall>g t. re_search date_at raw_hand = Some g \<and> strptime g = Inr t
      \<longrightarrow> (\<exists>h. parse_hand raw_id raw_hand hero_name = Inr h \<and> datetime h = Some t))
   \<and> (\<forall>g e. re_search date_at raw_hand = Some g \<and> strptime g = Inl e
      \<longrightarrow> e = ValueError \<and> parse_hand raw_id raw_hand hero_name = Inl ValueError)"
proof -
  let ?M = "case re_search (hero_at hero_name) raw_hand of
              Some (g1, g2) \<Rightarrow> map_sum id (\<lambda>v. (if lower g1 = ''won'' then 1 else - 1) * v) (py_float g2)
            | None \<Rightarrow> Inr 0"
  have "\<exists>rm. ?M = Inr rm"
  proof (cases "re_search (hero_at hero_name) raw_hand")
    case None
    then show ?thesis by simp
  next
    case (Some g)
    obtain w n where g: "g = (w, n)" by (cases g)
    from re_search_hero_number [OF Some [unfolded g]] have "number_text n" by blast
    from py_float_number [OF this] obtain v where "py_float n = Inr v" by blast
    then show ?thesis by (simp add: Some g)
  qed
  then obtain rm where rm: "?M = Inr rm" by blast
  have ok: "\<exists>h. parse_hand raw_id raw_hand hero_name = Inr h \<and> datetime h = t"
    if "(case re_search date_at raw_hand of Some g1 \<Rightarrow> map_sum id Some (strptime g1) | None \<Rightarrow> Inr None) = Inr t"
    for t
    unfolding parse_hand_def that Let_def rm by simp
  show ?thesis
  proof (intro conjI allI impI)
    assume "re_search date_at raw_hand = None"
    then show "\<exists>h. parse_hand raw_id raw_hand hero_name = Inr h \<and> datetime h = None"
      by (intro ok) simp
  next
    fix g t assume "re_search date_at raw_hand = Some g \<and> strptime g = Inr t"
    then show "\<exists>h. parse_hand raw_id raw_hand hero_name = Inr h \<and> datetime h = Some t"
      by (intro ok) simp
  next
    fix g e assume a: "re_search date_at raw_hand = Some g \<and> strptime g = Inl e"
    then show "e = ValueError" using strptime_error by blast
    then show "parse_hand raw_id raw_hand hero_name = Inl ValueError"
      unfolding parse_hand_def using a by simp
  qed
qed

theorem parse_hand_returns_witness:
  "(\<exists>h. parse_hand 0 example_plain ''Hero'' = Inr h \<and> datetime h = None)
   \<and> (\<exists>h. parse_hand 0 example_block ''Hero'' = Inr h \<and> datetime h = Some 63839761445)
   \<and> parse_hand 1 example_bad_date ''Hero'' = Inl ValueError"
proof (intro conjI)
  from parse_hand_returns [of example_plain 0 "''Hero''", THEN conjunct1] example_plain_searches(3)
  show "\<exists>h. parse_hand 0 example_plain ''Hero'' = Inr h \<and> datetime h = None" by blast
next
  from parse_hand_returns [of example_block 0 "''Hero''", THEN conjunct2, THEN conjunct1]
    example_block_searches(3) example_bad_date_searches(3)
  show "\<exists>h. parse_hand 0 example_block ''Hero'' = Inr h \<and> datetime h = Some 63839761445" by blast
next
  from parse_hand_returns [of example_bad_date 1 "''Hero''", THEN conjunct2, THEN conjunct2]
    example_bad_date_searches(1,2)
  show "parse_hand 1 example_bad_date ''Hero'' = Inl ValueError" by blast
qed




end
